theory Spec2Isabelle
  imports Main
begin

section \<open>Strings and bytes\<close>

text \<open>
  A Go \<^verbatim>\<open>string\<close> and a Go \<^verbatim>\<open>[]byte\<close> are both sequences of bytes; \<^verbatim>\<open>len\<close> counts
  bytes. Both are modelled by \<^typ>\<open>string\<close>, a list of 8-bit characters, and
  \<^term>\<open>of_char c :: nat\<close> is the value of the byte \<open>c\<close>.
\<close>

abbreviation byte :: "char \<Rightarrow> nat" where
  "byte c \<equiv> of_char c"

section \<open>The library functions that the program calls\<close>

subsection \<open>encoding/base64: StdEncoding.DecodeString and EncodeToString\<close>

text \<open>
  \<^verbatim>\<open>StdEncoding\<close> is the alphabet \<^verbatim>\<open>A-Z a-z 0-9 + /\<close> with the padding character
  \<^verbatim>\<open>=\<close>, not in strict mode. \<open>decodeMap\<close> is the table of the encoding: the 6-bit
  value of a character of the alphabet, and \<open>None\<close> where Go's table holds \<^verbatim>\<open>0xff\<close>.
\<close>

definition decodeMap :: "char \<Rightarrow> nat option" where
  "decodeMap c =
     (let n = byte c in
      if 65 \<le> n \<and> n \<le> 90 then Some (n - 65)
      else if 97 \<le> n \<and> n \<le> 122 then Some (n - 71)
      else if 48 \<le> n \<and> n \<le> 57 then Some (n + 4)
      else if n = 43 then Some 62
      else if n = 47 then Some 63
      else None)"

text \<open>The decoder skips \<^verbatim>\<open>'\n'\<close> and \<^verbatim>\<open>'\r'\<close> wherever they stand.\<close>

definition isNewline :: "char \<Rightarrow> bool" where
  "isNewline c = (byte c = 10 \<or> byte c = 13)"

text \<open>
  The end of \<^verbatim>\<open>decodeQuantum\<close>: \<open>dbuf\<close> holds the \<open>dlen\<close> 6-bit values read (the
  rest of Go's 4-byte buffer is zero), \<^verbatim>\<open>val\<close> packs them into 24 bits, and
  \<open>dlen - 1\<close> bytes are written. Outside strict mode the bits left over are dropped
  without a check.
\<close>

definition quantumBytes :: "nat list \<Rightarrow> string" where
  "quantumBytes dbuf =
     (let d = dbuf @ replicate (4 - length dbuf) 0;
          val = (d ! 0) * 262144 + (d ! 1) * 4096 + (d ! 2) * 64 + (d ! 3)
      in take (length dbuf - 1)
           [char_of (val div 65536), char_of (val div 256), char_of val])"

text \<open>
  \<^verbatim>\<open>Decode\<close> calls \<^verbatim>\<open>decodeQuantum\<close> until the input is used up (its fast paths for
  4 and 8 characters of the alphabet compute the same bytes). \<open>decodeLoop dbuf src\<close>
  is that loop, \<open>dbuf\<close> being the values of the quantum under way (\<^verbatim>\<open>j\<close> is its
  length). \<open>None\<close> is \<^verbatim>\<open>CorruptInputError\<close>: the input ends inside a quantum, holds a
  character outside the alphabet, has padding after fewer than two values, a single
  \<^verbatim>\<open>=\<close> where two are due, or anything but newlines after the padding.
\<close>

fun decodeLoop :: "nat list \<Rightarrow> string \<Rightarrow> string option" where
  "decodeLoop dbuf [] = (if dbuf = [] then Some [] else None)"
| "decodeLoop dbuf (c # src) =
     (case decodeMap c of
        Some out \<Rightarrow>
          (if length dbuf = 3
           then map_option (\<lambda>r. quantumBytes (dbuf @ [out]) @ r) (decodeLoop [] src)
           else decodeLoop (dbuf @ [out]) src)
      | None \<Rightarrow>
          if isNewline c then decodeLoop dbuf src
          else if c \<noteq> CHR ''='' then None
          else if length dbuf < 2 then None
          else if length dbuf = 2 then
            (case dropWhile isNewline src of
               [] \<Rightarrow> None
             | c' # src' \<Rightarrow>
                 if c' \<noteq> CHR ''='' then None
                 else if dropWhile isNewline src' \<noteq> [] then None
                 else Some (quantumBytes dbuf))
          else if dropWhile isNewline src \<noteq> [] then None
          else Some (quantumBytes dbuf))"

definition DecodeString :: "string \<Rightarrow> string option" where
  "DecodeString s = decodeLoop [] s"

text \<open>
  \<^verbatim>\<open>EncodeToString\<close>, the Base64 encoding of the specification: three bytes become
  four characters of the alphabet, six bits each; one or two bytes left over become
  two or three characters and the padding.
\<close>

definition encodeStd :: "nat \<Rightarrow> char" where
  "encodeStd v =
     (if v < 26 then char_of (v + 65)
      else if v < 52 then char_of (v + 71)
      else if v < 62 then char_of (v - 4)
      else if v = 62 then CHR ''+''
      else CHR ''/'')"

fun EncodeToString :: "string \<Rightarrow> string" where
  "EncodeToString [] = []"
| "EncodeToString [a] =
     [encodeStd (byte a div 4), encodeStd (byte a mod 4 * 16), CHR ''='', CHR ''='']"
| "EncodeToString [a, b] =
     [encodeStd (byte a div 4), encodeStd (byte a mod 4 * 16 + byte b div 16),
      encodeStd (byte b mod 16 * 4), CHR ''='']"
| "EncodeToString (a # b # c # src) =
     [encodeStd (byte a div 4), encodeStd (byte a mod 4 * 16 + byte b div 16),
      encodeStd (byte b mod 16 * 4 + byte c div 64), encodeStd (byte c mod 64)]
     @ EncodeToString src"

subsection \<open>unicode/utf8: Valid\<close>

definition isCont :: "char \<Rightarrow> bool" where
  "isCont c = (128 \<le> byte c \<and> byte c \<le> 191)"

text \<open>
  \<open>runeLen s\<close> is the number of bytes of the well-formed UTF-8 sequence at the head of
  \<open>s\<close>, and 0 when there is none: no overlong form, no surrogate, nothing above
  U+10FFFF (Go's table \<^verbatim>\<open>acceptRanges\<close>).
\<close>

fun runeLen :: "string \<Rightarrow> nat" where
  "runeLen [] = 0"
| "runeLen (a # s) =
     (let x = byte a in
      if x < 128 then 1
      else if 194 \<le> x \<and> x \<le> 223 then
        (case s of b # _ \<Rightarrow> if isCont b then 2 else 0 | _ \<Rightarrow> 0)
      else if 224 \<le> x \<and> x \<le> 239 then
        (case s of
           b # c # _ \<Rightarrow>
             if (if x = 224 then 160 else 128) \<le> byte b
                \<and> byte b \<le> (if x = 237 then 159 else 191) \<and> isCont c
             then 3 else 0
         | _ \<Rightarrow> 0)
      else if 240 \<le> x \<and> x \<le> 244 then
        (case s of
           b # c # d # _ \<Rightarrow>
             if (if x = 240 then 144 else 128) \<le> byte b
                \<and> byte b \<le> (if x = 244 then 143 else 191) \<and> isCont c \<and> isCont d
             then 4 else 0
         | _ \<Rightarrow> 0)
      else 0)"

function Valid :: "string \<Rightarrow> bool" where
  "Valid s = (if s = [] then True
              else if runeLen s = 0 then False
              else Valid (drop (runeLen s) s))"
  by pat_completeness auto
termination
  by (relation "measure length") auto

declare Valid.simps [simp del]

subsection \<open>strings: TrimSpace\<close>

text \<open>
  \<^verbatim>\<open>TrimSpace\<close> removes the leading and the trailing white space of Unicode
  (\<^verbatim>\<open>unicode.IsSpace\<close>): the bytes 9 to 13 and 32, and in UTF-8 the code points U+0085,
  U+00A0, U+1680, U+2000 to U+200A, U+2028, U+2029, U+202F, U+205F and U+3000.
  \<open>leadSpace s\<close> is the number of bytes of the white space character at the head of
  \<open>s\<close>, \<open>trailSpace r\<close> that of the one at the end of the string whose reversal is
  \<open>r\<close>; both are 0 when there is none.
\<close>

definition asciiSpace :: "char \<Rightarrow> bool" where
  "asciiSpace c = (byte c = 32 \<or> (9 \<le> byte c \<and> byte c \<le> 13))"

definition space2 :: "char \<Rightarrow> char \<Rightarrow> bool" where
  "space2 a b = (byte a = 194 \<and> (byte b = 133 \<or> byte b = 160))"

definition space3 :: "char \<Rightarrow> char \<Rightarrow> char \<Rightarrow> bool" where
  "space3 a b c =
     ((byte a = 225 \<and> byte b = 154 \<and> byte c = 128)
      \<or> (byte a = 226 \<and> byte b = 128
          \<and> ((128 \<le> byte c \<and> byte c \<le> 138) \<or> byte c = 168 \<or> byte c = 169 \<or> byte c = 175))
      \<or> (byte a = 226 \<and> byte b = 129 \<and> byte c = 159)
      \<or> (byte a = 227 \<and> byte b = 128 \<and> byte c = 128))"

fun leadSpace :: "string \<Rightarrow> nat" where
  "leadSpace (a # b # c # s) =
     (if asciiSpace a then 1 else if space2 a b then 2 else if space3 a b c then 3 else 0)"
| "leadSpace [a, b] = (if asciiSpace a then 1 else if space2 a b then 2 else 0)"
| "leadSpace [a] = (if asciiSpace a then 1 else 0)"
| "leadSpace [] = 0"

fun trailSpace :: "string \<Rightarrow> nat" where
  "trailSpace (c # b # a # s) =
     (if asciiSpace c then 1 else if space2 b c then 2 else if space3 a b c then 3 else 0)"
| "trailSpace [c, b] = (if asciiSpace c then 1 else if space2 b c then 2 else 0)"
| "trailSpace [c] = (if asciiSpace c then 1 else 0)"
| "trailSpace [] = 0"

lemma leadSpace_le: "leadSpace s \<le> length s"
  by (induction s rule: leadSpace.induct) auto

lemma trailSpace_le: "trailSpace s \<le> length s"
  by (induction s rule: trailSpace.induct) auto

function trimLeft :: "string \<Rightarrow> string" where
  "trimLeft s = (if leadSpace s = 0 then s else trimLeft (drop (leadSpace s) s))"
  by pat_completeness auto
termination
proof (relation "measure length")
  fix s :: string
  assume "leadSpace s \<noteq> 0"
  moreover have "leadSpace s \<le> length s" by (rule leadSpace_le)
  ultimately show "(drop (leadSpace s) s, s) \<in> measure length" by simp
qed simp

function trimRightRev :: "string \<Rightarrow> string" where
  "trimRightRev r = (if trailSpace r = 0 then r else trimRightRev (drop (trailSpace r) r))"
  by pat_completeness auto
termination
proof (relation "measure length")
  fix r :: string
  assume "trailSpace r \<noteq> 0"
  moreover have "trailSpace r \<le> length r" by (rule trailSpace_le)
  ultimately show "(drop (trailSpace r) r, r) \<in> measure length" by simp
qed simp

declare trimLeft.simps [simp del] trimRightRev.simps [simp del]

definition TrimSpace :: "string \<Rightarrow> string" where
  "TrimSpace s = rev (trimRightRev (rev (trimLeft s)))"


subsection \<open>encoding/json: Unmarshal into an empty interface\<close>

text \<open>
  The JSON value that \<^verbatim>\<open>json.Unmarshal\<close> stores in an \<^verbatim>\<open>any\<close>:
  \<^verbatim>\<open>map[string]any\<close>, \<^verbatim>\<open>[]any\<close>, \<^verbatim>\<open>string\<close>, \<^verbatim>\<open>float64\<close>, \<^verbatim>\<open>bool\<close> or \<^verbatim>\<open>nil\<close>.
  A Go map is modelled by the list of its entries, each key once; the order of the
  list stands for nothing in Go. The type \<open>'n\<close> is that of numbers: Go converts a number
  token with \<^verbatim>\<open>strconv.ParseFloat\<close>, which fails on a token out of the range of
  \<^verbatim>\<open>float64\<close>. Floating point is not modelled: the conversion is the parameter
  \<open>conv\<close> of the parser, and every result below holds for each conversion.
\<close>

datatype 'n json =
    JObject "(string \<times> 'n json) list"
  | JArray "'n json list"
  | JString string
  | JNumber 'n
  | JBool bool
  | JNull

text \<open>
  \<^verbatim>\<open>Unmarshal\<close> checks the syntax of the whole input with the scanner of the package
  and then builds the value; any error of either pass makes it return an error. The
  model reads the input once, by recursive descent, and \<open>None\<close> stands for every error.
  The input is valid UTF-8 wherever the decoder calls \<^verbatim>\<open>Unmarshal\<close>, so a byte
  above 127 inside a string literal is copied as it is.

  White space between tokens is space, tab, carriage return and line feed.
\<close>

definition isSpaceJSON :: "char \<Rightarrow> bool" where
  "isSpaceJSON c = (byte c = 32 \<or> byte c = 9 \<or> byte c = 13 \<or> byte c = 10)"

definition skipWS :: "string \<Rightarrow> string" where
  "skipWS s = dropWhile isSpaceJSON s"

definition isDigit :: "char \<Rightarrow> bool" where
  "isDigit c = (48 \<le> byte c \<and> byte c \<le> 57)"

text \<open>
  String literals (\<^verbatim>\<open>unquote\<close>). An escape is a backslash followed by a quote, a
  backslash, \<^verbatim>\<open>/\<close>, \<^verbatim>\<open>b\<close>, \<^verbatim>\<open>f\<close>, \<^verbatim>\<open>n\<close>, \<^verbatim>\<open>r\<close> or \<^verbatim>\<open>t\<close>, or by \<^verbatim>\<open>u\<close> and four
  hexadecimal digits (\<open>getu4\<close>). The code point of such a \<^verbatim>\<open>u\<close> escape is written in
  UTF-8 (\<open>EncodeRune\<close>); a surrogate followed by a second \<^verbatim>\<open>u\<close> escape that completes
  the pair (\<open>DecodeRune16\<close>) gives one code point, and a surrogate alone gives U+FFFD
  (\<open>RuneError\<close>). A byte below 32 is not allowed in a literal. \<open>unquoteStep c s\<close>
  reads the character \<open>c\<close> of a literal and what belongs to it in \<open>s\<close>;
  \<open>scanString s\<close> reads a literal after its opening quote, and returns its text and
  the input after the closing quote.
\<close>

definition hexVal :: "char \<Rightarrow> nat option" where
  "hexVal c =
     (let n = byte c in
      if 48 \<le> n \<and> n \<le> 57 then Some (n - 48)
      else if 97 \<le> n \<and> n \<le> 102 then Some (n - 87)
      else if 65 \<le> n \<and> n \<le> 70 then Some (n - 55)
      else None)"

definition getu4 :: "char \<Rightarrow> char \<Rightarrow> char \<Rightarrow> char \<Rightarrow> nat option" where
  "getu4 a b c d =
     (case (hexVal a, hexVal b, hexVal c, hexVal d) of
        (Some x, Some y, Some z, Some w) \<Rightarrow> Some (x * 4096 + y * 256 + z * 16 + w)
      | _ \<Rightarrow> None)"

definition RuneError :: string where
  "RuneError = [char_of (239::nat), char_of (191::nat), char_of (189::nat)]"

definition EncodeRune :: "nat \<Rightarrow> string" where
  "EncodeRune r =
     (if r < 128 then [char_of r]
      else if r < 2048 then [char_of (192 + r div 64), char_of (128 + r mod 64)]
      else if (55296 \<le> r \<and> r < 57344) \<or> 1114111 < r then RuneError
      else if r < 65536 then
        [char_of (224 + r div 4096), char_of (128 + r div 64 mod 64), char_of (128 + r mod 64)]
      else
        [char_of (240 + r div 262144), char_of (128 + r div 4096 mod 64),
         char_of (128 + r div 64 mod 64), char_of (128 + r mod 64)])"

definition isSurrogate :: "nat \<Rightarrow> bool" where
  "isSurrogate r = (55296 \<le> r \<and> r < 57344)"

definition DecodeRune16 :: "nat \<Rightarrow> nat \<Rightarrow> nat option" where
  "DecodeRune16 r1 r2 =
     (if 55296 \<le> r1 \<and> r1 < 56320 \<and> 56320 \<le> r2 \<and> r2 < 57344
      then Some ((r1 - 55296) * 1024 + (r2 - 56320) + 65536)
      else None)"

definition simpleEscape :: "char \<Rightarrow> char option" where
  "simpleEscape e =
     (if e = CHR 0x22 \<or> e = CHR 0x5C \<or> e = CHR ''/'' then Some e
      else if e = CHR ''b'' then Some (CHR 0x08)
      else if e = CHR ''f'' then Some (CHR 0x0C)
      else if e = CHR ''n'' then Some (CHR 0x0A)
      else if e = CHR ''r'' then Some (CHR 0x0D)
      else if e = CHR ''t'' then Some (CHR 0x09)
      else None)"

definition secondSurrogate :: "string \<Rightarrow> nat option" where
  "secondSurrogate s =
     (case s of
        b # u # a1 # a2 # a3 # a4 # _ \<Rightarrow>
          if b = CHR 0x5C \<and> u = CHR ''u'' then getu4 a1 a2 a3 a4 else None
      | _ \<Rightarrow> None)"

definition unquoteStep :: "char \<Rightarrow> string \<Rightarrow> (string \<times> string) option" where
  "unquoteStep c s =
     (if c = CHR 0x5C then
        (case s of
           [] \<Rightarrow> None
         | e # s1 \<Rightarrow>
             if e = CHR ''u'' then
               (case s1 of
                  a1 # a2 # a3 # a4 # s2 \<Rightarrow>
                    (case getu4 a1 a2 a3 a4 of
                       None \<Rightarrow> None
                     | Some rr \<Rightarrow>
                         if isSurrogate rr then
                           (case Option.bind (secondSurrogate s2) (DecodeRune16 rr) of
                              Some dec \<Rightarrow> Some (EncodeRune dec, drop 6 s2)
                            | None \<Rightarrow> Some (RuneError, s2))
                         else Some (EncodeRune rr, s2))
                | _ \<Rightarrow> None)
             else map_option (\<lambda>x. ([x], s1)) (simpleEscape e))
      else if byte c < 32 then None
      else Some ([c], s))"

lemma length_EncodeRune: "length (EncodeRune r) \<le> 4"
  by (simp add: EncodeRune_def RuneError_def)

lemma secondSurrogate_length: "secondSurrogate s = Some x \<Longrightarrow> 6 \<le> length s"
  by (auto simp: secondSurrogate_def split: list.splits)

lemma unquoteStep_length:
  assumes "unquoteStep c s = Some (out, rest)"
  shows "length out + length rest \<le> Suc (length s)"
proof (cases "c = CHR 0x5C")
  case False
  with assms show ?thesis by (auto simp: unquoteStep_def split: if_splits)
next
  case True
  with assms obtain e s1 where s: "s = e # s1"
    by (cases s) (auto simp: unquoteStep_def)
  show ?thesis
  proof (cases "e = CHR ''u''")
    case False
    with assms True s show ?thesis by (auto simp: unquoteStep_def)
  next
    case u: True
    with assms True s obtain a1 a2 a3 a4 s2 rr where s1: "s1 = a1 # a2 # a3 # a4 # s2"
      and rr: "getu4 a1 a2 a3 a4 = Some rr"
      by (auto simp: unquoteStep_def split: list.splits option.splits)
    show ?thesis
    proof (cases "isSurrogate rr")
      case False
      with assms True s u s1 rr have "out = EncodeRune rr" "rest = s2"
        by (auto simp: unquoteStep_def)
      with s s1 length_EncodeRune[of rr] show ?thesis by simp
    next
      case sur: True
      show ?thesis
      proof (cases "Option.bind (secondSurrogate s2) (DecodeRune16 rr)")
        case None
        with assms True s u s1 rr sur have "out = RuneError" "rest = s2"
          by (auto simp: unquoteStep_def)
        with s s1 show ?thesis by (simp add: RuneError_def)
      next
        case (Some dec)
        with assms True s u s1 rr sur have "out = EncodeRune dec" "rest = drop 6 s2"
          by (auto simp: unquoteStep_def)
        moreover from Some have "6 \<le> length s2"
          by (auto simp: bind_eq_Some_conv dest: secondSurrogate_length)
        ultimately show ?thesis using s s1 length_EncodeRune[of dec] by simp
      qed
    qed
  qed
qed

lemma unquoteStep_rest: "unquoteStep c s = Some (out, rest) \<Longrightarrow> length rest \<le> length s"
  by (auto simp: unquoteStep_def split: if_splits list.splits option.splits)

function scanString :: "string \<Rightarrow> (string \<times> string) option" where
  "scanString [] = None"
| "scanString (c # s) =
     (if c = CHR 0x22 then Some ([], s)
      else
        (case unquoteStep c s of
           None \<Rightarrow> None
         | Some (out, rest) \<Rightarrow> map_option (\<lambda>(t, r). (out @ t, r)) (scanString rest)))"
  by pat_completeness auto
termination
  by (relation "measure length") (auto dest: unquoteStep_rest)

lemma scanString_length: "scanString s = Some (t, r) \<Longrightarrow> length t + length r < length s"
proof (induction s arbitrary: t r rule: scanString.induct)
  case 1
  then show ?case by simp
next
  case (2 c s)
  show ?case
  proof (cases "c = CHR 0x22")
    case True
    with "2.prems" show ?thesis by simp
  next
    case False
    with "2.prems" obtain out rest t' where st: "unquoteStep c s = Some (out, rest)"
      and sc: "scanString rest = Some (t', r)" and t: "t = out @ t'"
      by (auto split: option.splits)
    from "2.IH"[OF False st refl sc] have "length t' + length r < length rest" .
    with unquoteStep_length[OF st] t show ?thesis by simp
  qed
qed

text \<open>
  Numbers: an optional minus sign, \<^verbatim>\<open>0\<close> or a digit from 1 to 9 followed by digits, an
  optional fraction (a point and at least one digit) and an optional exponent
  (\<^verbatim>\<open>e\<close> or \<^verbatim>\<open>E\<close>, an optional sign, at least one digit). \<open>scanNumber\<close> returns the
  token and the input after it.
\<close>

definition scanDigits :: "string \<Rightarrow> (string \<times> string) option" where
  "scanDigits s =
     (if takeWhile isDigit s = [] then None
      else Some (takeWhile isDigit s, dropWhile isDigit s))"

definition scanInt :: "string \<Rightarrow> (string \<times> string) option" where
  "scanInt s =
     (case s of
        [] \<Rightarrow> None
      | c # r \<Rightarrow>
          if c = CHR ''0'' then Some ([c], r)
          else if isDigit c then Some (c # takeWhile isDigit r, dropWhile isDigit r)
          else None)"

definition scanFrac :: "string \<Rightarrow> (string \<times> string) option" where
  "scanFrac s =
     (case s of
        c # r \<Rightarrow>
          if c = CHR ''.'' then map_option (\<lambda>(ds, r'). (c # ds, r')) (scanDigits r)
          else Some ([], s)
      | [] \<Rightarrow> Some ([], s))"

definition scanSign :: "string \<Rightarrow> string \<times> string" where
  "scanSign s =
     (case s of
        c # r \<Rightarrow> if c = CHR ''+'' \<or> c = CHR ''-'' then ([c], r) else ([], s)
      | [] \<Rightarrow> ([], s))"

definition scanExp :: "string \<Rightarrow> (string \<times> string) option" where
  "scanExp s =
     (case s of
        c # r \<Rightarrow>
          if c = CHR ''e'' \<or> c = CHR ''E'' then
            (case scanSign r of
               (sg, r1) \<Rightarrow> map_option (\<lambda>(ds, r2). (c # sg @ ds, r2)) (scanDigits r1))
          else Some ([], s)
      | [] \<Rightarrow> Some ([], s))"

definition scanNumber :: "string \<Rightarrow> (string \<times> string) option" where
  "scanNumber s =
     (case (case s of c # r \<Rightarrow> if c = CHR ''-'' then ([c], r) else ([], s) | [] \<Rightarrow> ([], s)) of
        (neg, s0) \<Rightarrow>
          (case scanInt s0 of
             None \<Rightarrow> None
           | Some (i, s1) \<Rightarrow>
               (case scanFrac s1 of
                  None \<Rightarrow> None
                | Some (f, s2) \<Rightarrow>
                    (case scanExp s2 of
                       None \<Rightarrow> None
                     | Some (e, s3) \<Rightarrow> Some (neg @ i @ f @ e, s3)))))"

text \<open>
  \<open>scanLiteral w v s\<close> reads the rest \<open>w\<close> of \<^verbatim>\<open>true\<close>, \<^verbatim>\<open>false\<close> or \<^verbatim>\<open>null\<close>.
  \<open>mapAssign k v m\<close> is the assignment \<^verbatim>\<open>m[k] = v\<close> of Go: the value of a key that
  is there is replaced, a new key is added. The scanner refuses an input nested deeper
  than \<open>maxNestingDepth\<close>.
\<close>

definition scanLiteral :: "string \<Rightarrow> 'a \<Rightarrow> string \<Rightarrow> ('a \<times> string) option" where
  "scanLiteral w v s = (if take (length w) s = w then Some (v, drop (length w) s) else None)"

fun mapAssign :: "string \<Rightarrow> 'v \<Rightarrow> (string \<times> 'v) list \<Rightarrow> (string \<times> 'v) list" where
  "mapAssign k v [] = [(k, v)]"
| "mapAssign k v ((k', v') # m) =
     (if k' = k then (k, v) # m else (k', v') # mapAssign k v m)"

definition maxNestingDepth :: nat where
  "maxNestingDepth = 10000"

definition parseScalar :: "(string \<Rightarrow> 'n option) \<Rightarrow> char \<Rightarrow> string \<Rightarrow> ('n json \<times> string) option" where
  "parseScalar conv c r =
     (if c = CHR 0x22 then map_option (\<lambda>(t, r'). (JString t, r')) (scanString r)
      else if c = CHR ''t'' then scanLiteral ''rue'' (JBool True) r
      else if c = CHR ''f'' then scanLiteral ''alse'' (JBool False) r
      else if c = CHR ''n'' then scanLiteral ''ull'' JNull r
      else if c = CHR ''-'' \<or> isDigit c then
        (case scanNumber (c # r) of
           None \<Rightarrow> None
         | Some (lit, r') \<Rightarrow> map_option (\<lambda>x. (JNumber x, r')) (conv lit))
      else None)"

definition closes :: "char \<Rightarrow> string \<Rightarrow> bool" where
  "closes c r = (take 1 (skipWS r) = [c])"

definition scanKey :: "string \<Rightarrow> (string \<times> string) option" where
  "scanKey s =
     (case skipWS s of
        [] \<Rightarrow> None
      | c # r \<Rightarrow>
          if c \<noteq> CHR 0x22 then None
          else
            (case scanString r of
               None \<Rightarrow> None
             | Some (key, r1) \<Rightarrow>
                 (case skipWS r1 of
                    [] \<Rightarrow> None
                  | c1 # r2 \<Rightarrow> if c1 \<noteq> CHR '':'' then None else Some (key, r2))))"

text \<open>
  \<open>parseValue conv n d s\<close> reads one value at the head of \<open>s\<close> and returns it with the
  input that follows; \<open>parseElems\<close> and \<open>parseMembers\<close> read the elements of an array
  and the members of an object after the first one has been found to be there. \<open>d\<close> is
  the number of arrays and objects that are open. \<open>n\<close> bounds the number of nested
  calls, which makes the three functions total; \<open>Unmarshal\<close> gives them more than any
  input needs (\<open>parse_fuel\<close> below). After the value only white space may follow.
\<close>

function (sequential) parseValue :: "(string \<Rightarrow> 'n option) \<Rightarrow> nat \<Rightarrow> nat \<Rightarrow> string \<Rightarrow> ('n json \<times> string) option"
  and parseElems :: "(string \<Rightarrow> 'n option) \<Rightarrow> nat \<Rightarrow> nat \<Rightarrow> 'n json list \<Rightarrow> string
                       \<Rightarrow> ('n json list \<times> string) option"
  and parseMembers :: "(string \<Rightarrow> 'n option) \<Rightarrow> nat \<Rightarrow> nat \<Rightarrow> (string \<times> 'n json) list \<Rightarrow> string
                       \<Rightarrow> ((string \<times> 'n json) list \<times> string) option"
where
  "parseValue conv 0 d s = None"
| "parseValue conv (Suc n) d s =
     (case skipWS s of
        [] \<Rightarrow> None
      | c # r \<Rightarrow>
          if c = CHR ''{'' then
            (if maxNestingDepth \<le> d then None
             else if closes (CHR ''}'') r then Some (JObject [], drop 1 (skipWS r))
             else map_option (\<lambda>(m, r'). (JObject m, r')) (parseMembers conv n (Suc d) [] r))
          else if c = CHR ''['' then
            (if maxNestingDepth \<le> d then None
             else if closes (CHR '']'') r then Some (JArray [], drop 1 (skipWS r))
             else map_option (\<lambda>(xs, r'). (JArray xs, r')) (parseElems conv n (Suc d) [] r))
          else parseScalar conv c r)"
| "parseElems conv 0 d acc s = None"
| "parseElems conv (Suc n) d acc s =
     (case parseValue conv n d s of
        None \<Rightarrow> None
      | Some (v, r) \<Rightarrow>
          if closes (CHR '','') r then parseElems conv n d (acc @ [v]) (drop 1 (skipWS r))
          else if closes (CHR '']'') r then Some (acc @ [v], drop 1 (skipWS r))
          else None)"
| "parseMembers conv 0 d acc s = None"
| "parseMembers conv (Suc n) d acc s =
     (case scanKey s of
        None \<Rightarrow> None
      | Some (key, r) \<Rightarrow>
          (case parseValue conv n d r of
             None \<Rightarrow> None
           | Some (v, r') \<Rightarrow>
               if closes (CHR '','') r' then
                 parseMembers conv n d (mapAssign key v acc) (drop 1 (skipWS r'))
               else if closes (CHR ''}'') r' then Some (mapAssign key v acc, drop 1 (skipWS r'))
               else None))"

  by pat_completeness auto
termination
  by (relation "measure (case_sum (\<lambda>p. fst (snd p)) (case_sum (\<lambda>p. fst (snd p)) (\<lambda>p. fst (snd p))))") auto

definition Unmarshal :: "(string \<Rightarrow> 'n option) \<Rightarrow> string \<Rightarrow> 'n json option" where
  "Unmarshal conv s =
     (case parseValue conv (2 * length s + 1) 0 s of
        None \<Rightarrow> None
      | Some (v, r) \<Rightarrow> if skipWS r = [] then Some v else None)"


fun maxStr :: "'n json \<Rightarrow> nat"
  and maxStrs :: "'n json list \<Rightarrow> nat"
  and maxStrm :: "(string \<times> 'n json) list \<Rightarrow> nat"
where
  "maxStr (JObject m) = maxStrm m"
| "maxStr (JArray xs) = maxStrs xs"
| "maxStr (JString s) = Suc (length s)"
| "maxStr (JNumber n) = 0"
| "maxStr (JBool b) = 0"
| "maxStr JNull = 0"
| "maxStrs [] = 0"
| "maxStrs (x # xs) = max (maxStr x) (maxStrs xs)"
| "maxStrm [] = 0"
| "maxStrm ((k, v) # m) = max (maxStr v) (maxStrm m)"

lemma length_quantumBytes: "length (quantumBytes dbuf) = min 3 (length dbuf - 1)"
  by (simp add: quantumBytes_def Let_def)

lemma decodeLoop_length:
  "decodeLoop dbuf src = Some out \<Longrightarrow> length dbuf \<le> 3
   \<Longrightarrow> 4 * length out \<le> 3 * (length dbuf + length src)"
proof (induction dbuf src arbitrary: out rule: decodeLoop.induct)
  case (1 dbuf)
  then show ?case by (simp split: if_splits)
next
  case (2 dbuf c src)
  show ?case
  proof (cases "decodeMap c")
    case (Some v)
    show ?thesis
    proof (cases "length dbuf = 3")
      case True
      with 2 Some obtain r where r: "decodeLoop [] src = Some r"
        and out: "out = quantumBytes (dbuf @ [v]) @ r" by auto
      from "2.IH"(2)[OF Some True r] have "4 * length r \<le> 3 * length src" by simp
      with out True show ?thesis by (simp add: length_quantumBytes)
    next
      case False
      with 2 Some have "decodeLoop (dbuf @ [v]) src = Some out" by simp
      from "2.IH"(3)[OF Some False this] False "2.prems"(2) show ?thesis by simp
    qed
  next
    case None
    show ?thesis
    proof (cases "isNewline c")
      case True
      with 2 None have "decodeLoop dbuf src = Some out" by simp
      from "2.IH"(1)[OF None True this] "2.prems"(2) show ?thesis by simp
    next
      case False
      with "2.prems" None have "out = quantumBytes dbuf" "2 \<le> length dbuf"
        by (auto split: if_splits list.splits)
      with "2.prems"(2) show ?thesis by (simp add: length_quantumBytes)
    qed
  qed
qed

lemma DecodeString_length: "DecodeString s = Some d \<Longrightarrow> 4 * length d \<le> 3 * length s"
  using decodeLoop_length[of "[]" s d] by (simp add: DecodeString_def)

lemma trimLeft_length: "length (trimLeft s) \<le> length s"
proof (induction s rule: trimLeft.induct)
  case (1 s)
  show ?case
  proof (cases "leadSpace s = 0")
    case True
    then show ?thesis by (simp add: trimLeft.simps)
  next
    case False
    from 1[OF False] have "length (trimLeft (drop (leadSpace s) s)) \<le> length s" by simp
    with False show ?thesis by (subst trimLeft.simps) simp
  qed
qed

lemma trimRightRev_length: "length (trimRightRev s) \<le> length s"
proof (induction s rule: trimRightRev.induct)
  case (1 s)
  show ?case
  proof (cases "trailSpace s = 0")
    case True
    then show ?thesis by (simp add: trimRightRev.simps)
  next
    case False
    from 1[OF False] have "length (trimRightRev (drop (trailSpace s) s)) \<le> length s" by simp
    with False show ?thesis by (subst trimRightRev.simps) simp
  qed
qed

lemma TrimSpace_length: "length (TrimSpace s) \<le> length s"
  using trimRightRev_length[of "rev (trimLeft s)"] trimLeft_length[of s]
  by (simp add: TrimSpace_def)

lemma maxStrs_append [simp]: "maxStrs (xs @ ys) = max (maxStrs xs) (maxStrs ys)"
  by (induction xs) auto

lemma mapAssign_new: "k \<notin> fst ` set m \<Longrightarrow> mapAssign k v m = m @ [(k, v)]"
  by (induction m) auto

lemma maxStrm_mapAssign: "maxStrm (mapAssign k v m) \<le> max (maxStr v) (maxStrm m)"
  by (induction m) auto

lemma skipWS_length: "length (skipWS s) \<le> length s"
  by (simp add: skipWS_def length_dropWhile_le)

lemma scanDigits_length: "scanDigits s = Some (ds, r) \<Longrightarrow> length r \<le> length s"
  by (auto simp: scanDigits_def length_dropWhile_le split: if_splits)

lemma scanInt_length: "scanInt s = Some (i, r) \<Longrightarrow> length r < length s"
  by (auto simp: scanInt_def length_dropWhile_le less_Suc_eq_le split: if_splits list.splits)

lemma scanFrac_length: "scanFrac s = Some (f, r) \<Longrightarrow> length r \<le> length s"
  by (auto simp: scanFrac_def split: if_splits list.splits dest!: scanDigits_length)

lemma scanSign_length: "scanSign s = (sg, r) \<Longrightarrow> length r \<le> length s"
  by (auto simp: scanSign_def split: if_splits list.splits)

lemma scanExp_length: "scanExp s = Some (e, r) \<Longrightarrow> length r \<le> length s"
  by (auto simp: scanExp_def split: if_splits list.splits prod.splits
      dest!: scanDigits_length scanSign_length)

lemma scanNumber_length: "scanNumber s = Some (lit, r) \<Longrightarrow> length r < length s"
  by (auto simp: scanNumber_def split: if_splits list.splits prod.splits option.splits
      dest!: scanInt_length scanFrac_length scanExp_length)

lemma scanLiteral_bounds:
  "scanLiteral w v s = Some (x, r) \<Longrightarrow> length r \<le> length s \<and> x = v"
  by (auto simp: scanLiteral_def split: if_splits)

lemma parseScalar_bounds:
  assumes "parseScalar conv c s = Some (v, r)"
  shows "length r \<le> length s \<and> maxStr v \<le> length s"
proof -
  consider (str) "c = CHR 0x22"
    | (t) "c \<noteq> CHR 0x22" "c = CHR ''t''"
    | (f) "c \<noteq> CHR 0x22" "c \<noteq> CHR ''t''" "c = CHR ''f''"
    | (n) "c \<noteq> CHR 0x22" "c \<noteq> CHR ''t''" "c \<noteq> CHR ''f''" "c = CHR ''n''"
    | (num) "c \<noteq> CHR 0x22" "c \<noteq> CHR ''t''" "c \<noteq> CHR ''f''" "c \<noteq> CHR ''n''"
    by blast
  then show ?thesis
  proof cases
    case str
    with assms obtain t where "scanString s = Some (t, r)" "v = JString t"
      by (auto simp: parseScalar_def)
    with scanString_length[of s t r] show ?thesis by simp
  next
    case t
    with assms have "scanLiteral ''rue'' (JBool True) s = Some (v, r)"
      by (simp add: parseScalar_def)
    from scanLiteral_bounds[OF this] show ?thesis by simp
  next
    case f
    with assms have "scanLiteral ''alse'' (JBool False) s = Some (v, r)"
      by (simp add: parseScalar_def)
    from scanLiteral_bounds[OF this] show ?thesis by simp
  next
    case n
    with assms have "scanLiteral ''ull'' JNull s = Some (v, r)"
      by (simp add: parseScalar_def)
    from scanLiteral_bounds[OF this] show ?thesis by simp
  next
    case num
    with assms obtain lit x where "scanNumber (c # s) = Some (lit, r)" "v = JNumber x"
      by (auto simp: parseScalar_def split: if_splits option.splits)
    with scanNumber_length[of "c # s" lit r] show ?thesis by simp
  qed
qed

lemma scanKey_length:
  assumes "scanKey s = Some (k, r)"
  shows "length r < length s"
proof -
  from assms obtain c r0 r1 c1 where ws: "skipWS s = c # r0"
    and sc: "scanString r0 = Some (k, r1)" and ws1: "skipWS r1 = c1 # r"
    by (auto simp: scanKey_def split: list.splits if_splits option.splits)
  from scanString_length[OF sc] have "length r1 < length r0" by simp
  moreover from ws1 skipWS_length[of r1] have "length r < length r1" by simp
  moreover from ws skipWS_length[of s] have "length r0 < length s" by simp
  ultimately show ?thesis by simp
qed

lemma closes_length: "closes c r \<Longrightarrow> length (drop 1 (skipWS r)) < length r"
  using skipWS_length[of r] by (cases "skipWS r") (auto simp: closes_def)

lemma parse_bounds:
  "(\<forall>d s v r. parseValue conv n d s = Some (v, r)
       \<longrightarrow> length r < length s \<and> maxStr v < length s)
   \<and> (\<forall>d acc s vs r. parseElems conv n d acc s = Some (vs, r)
       \<longrightarrow> length r < length s \<and> maxStrs vs \<le> max (maxStrs acc) (length s - 1))
   \<and> (\<forall>d acc s m r. parseMembers conv n d acc s = Some (m, r)
       \<longrightarrow> length r < length s \<and> maxStrm m \<le> max (maxStrm acc) (length s - 1))"
proof (induction n)
  case 0
  show ?case by simp
next
  case (Suc n)
  have V: "length r < length s \<and> maxStr v < length s"
    if "parseValue conv (Suc n) d s = Some (v, r)" for d s v r
  proof -
    from that obtain c r0 where ws: "skipWS s = c # r0"
      by (cases "skipWS s") auto
    from ws skipWS_length[of s] have len0: "length r0 < length s" by simp
    then have ne: "s \<noteq> []" by auto
    consider (obj) "c = CHR ''{''" | (arr) "c \<noteq> CHR ''{''" "c = CHR ''[''"
      | (scalar) "c \<noteq> CHR ''{''" "c \<noteq> CHR ''[''" by blast
    then show ?thesis
    proof cases
      case obj
      show ?thesis
      proof (cases "closes (CHR ''}'') r0")
        case True
        with that ws obj have "v = JObject []" "r = drop 1 (skipWS r0)"
          by (auto split: if_splits)
        with closes_length[OF True] len0 ne show ?thesis by simp
      next
        case False
        with that ws obj obtain m where "parseMembers conv n (Suc d) [] r0 = Some (m, r)"
          "v = JObject m" by (auto split: if_splits)
        with Suc len0 show ?thesis by fastforce
      qed
    next
      case arr
      show ?thesis
      proof (cases "closes (CHR '']'') r0")
        case True
        with that ws arr have "v = JArray []" "r = drop 1 (skipWS r0)"
          by (auto split: if_splits)
        with closes_length[OF True] len0 ne show ?thesis by simp
      next
        case False
        with that ws arr obtain xs where "parseElems conv n (Suc d) [] r0 = Some (xs, r)"
          "v = JArray xs" by (auto split: if_splits)
        with Suc len0 show ?thesis by fastforce
      qed
    next
      case scalar
      with that ws have "parseScalar conv c r0 = Some (v, r)" by simp
      from parseScalar_bounds[OF this] len0 show ?thesis by simp
    qed
  qed
  have E: "length r < length s \<and> maxStrs vs \<le> max (maxStrs acc) (length s - 1)"
    if "parseElems conv (Suc n) d acc s = Some (vs, r)" for d acc s vs r
  proof -
    from that obtain v r0 where pv: "parseValue conv n d s = Some (v, r0)"
      by (auto split: option.splits)
    with Suc have b: "length r0 < length s" "maxStr v < length s" by blast+
    show ?thesis
    proof (cases "closes (CHR '','') r0")
      case True
      with that pv have "parseElems conv n d (acc @ [v]) (drop 1 (skipWS r0)) = Some (vs, r)"
        by simp
      with Suc have "length r < length (drop 1 (skipWS r0))"
        "maxStrs vs \<le> max (maxStrs (acc @ [v])) (length (drop 1 (skipWS r0)) - 1)" by blast+
      with closes_length[OF True] b show ?thesis unfolding maxStrs_append maxStrs.simps by arith
    next
      case False
      with that pv have c: "closes (CHR '']'') r0" and "vs = acc @ [v]"
        and "r = drop 1 (skipWS r0)"
        by (auto split: if_splits)
      with closes_length[OF c] b show ?thesis by (auto simp: max_def)
    qed
  qed
  have M: "length r < length s \<and> maxStrm m \<le> max (maxStrm acc) (length s - 1)"
    if "parseMembers conv (Suc n) d acc s = Some (m, r)" for d acc s m r
  proof -
    from that obtain k r1 where sk: "scanKey s = Some (k, r1)"
      by (auto split: option.splits)
    from that sk obtain v r0 where pv: "parseValue conv n d r1 = Some (v, r0)"
      by (auto split: option.splits)
    from scanKey_length[OF sk] have l1: "length r1 < length s" .
    from pv Suc have "length r0 < length r1" "maxStr v < length r1" by blast+
    with l1 have b: "length r0 < length s" "maxStr v < length s" by simp_all
    have ma: "maxStrm (mapAssign k v acc) \<le> max (maxStrm acc) (length s - 1)"
      using maxStrm_mapAssign[of k v acc] b by arith
    show ?thesis
    proof (cases "closes (CHR '','') r0")
      case True
      with that sk pv
      have "parseMembers conv n d (mapAssign k v acc) (drop 1 (skipWS r0)) = Some (m, r)"
        by simp
      with Suc have "length r < length (drop 1 (skipWS r0))"
        "maxStrm m \<le> max (maxStrm (mapAssign k v acc)) (length (drop 1 (skipWS r0)) - 1)"
        by blast+
      with closes_length[OF True] b ma show ?thesis by arith
    next
      case False
      with that sk pv have c: "closes (CHR ''}'') r0" and "m = mapAssign k v acc"
        and "r = drop 1 (skipWS r0)"
        by (auto split: if_splits)
      with closes_length[OF c] b ma show ?thesis by arith
    qed
  qed
  from V E M show ?case by blast
qed

lemma Unmarshal_maxStr: "Unmarshal conv s = Some v \<Longrightarrow> maxStr v < length s"
  using parse_bounds[of conv "2 * length s + 1"]
  by (auto simp: Unmarshal_def split: option.splits if_splits)

declare parseValue.simps [simp del] parseElems.simps [simp del] parseMembers.simps [simp del]

text \<open>
  The bound on nested calls never cuts a parse short: with at least twice the length of
  the input every bound gives the same result, so \<open>None\<close> from \<open>Unmarshal\<close> is an
  error of syntax, of depth or of a number, and never a lack of steps.
\<close>

lemma parseValue_empty: "parseValue conv n d [] = None"
  by (cases n) (simp_all add: parseValue.simps skipWS_def)

lemma parse_fuel:
  "(\<forall>d s m. 2 * length s \<le> n \<longrightarrow> 2 * length s \<le> m
       \<longrightarrow> parseValue conv n d s = parseValue conv m d s)
   \<and> (\<forall>d acc s m. 2 * length s + 1 \<le> n \<longrightarrow> 2 * length s + 1 \<le> m
       \<longrightarrow> parseElems conv n d acc s = parseElems conv m d acc s)
   \<and> (\<forall>d acc s m. 2 * length s + 1 \<le> n \<longrightarrow> 2 * length s + 1 \<le> m
       \<longrightarrow> parseMembers conv n d acc s = parseMembers conv m d acc s)"
proof (induction n)
  case 0
  show ?case by (auto simp: parseValue_empty parseValue.simps)
next
  case (Suc n)
  note IHV = Suc [THEN conjunct1, rule_format]
  note IHE = Suc [THEN conjunct2, THEN conjunct1, rule_format]
  note IHM = Suc [THEN conjunct2, THEN conjunct2, rule_format]
  have V: "parseValue conv (Suc n) d s = parseValue conv m d s"
    if n: "2 * length s \<le> Suc n" and m: "2 * length s \<le> m" for d s m
  proof (cases "skipWS s")
    case Nil
    then show ?thesis by (cases m) (simp_all add: parseValue.simps)
  next
    case (Cons c r0)
    with skipWS_length[of s] have len: "length r0 < length s" by simp
    with m obtain m' where m': "m = Suc m'" by (cases m) auto
    from len n m m' have b: "2 * length r0 + 1 \<le> n" "2 * length r0 + 1 \<le> m'" by simp_all
    from IHE[OF b] IHM[OF b] show ?thesis
      by (simp add: parseValue.simps Cons m')
  qed
  have E: "parseElems conv (Suc n) d acc s = parseElems conv m d acc s"
    if n: "2 * length s + 1 \<le> Suc n" and m: "2 * length s + 1 \<le> m" for d acc s m
  proof -
    from m obtain m' where m': "m = Suc m'" by (cases m) auto
    from n m m' have b: "2 * length s \<le> n" "2 * length s \<le> m'" by simp_all
    note pv = IHV[OF b, of d]
    show ?thesis
    proof (cases "parseValue conv n d s")
      case None
      moreover from None pv have "parseValue conv m' d s = None" by simp
      ultimately show ?thesis by (simp add: parseElems.simps m')
    next
      case (Some p)
      obtain v r where p: "p = (v, r)" by (cases p)
      from Some p have pn: "parseValue conv n d s = Some (v, r)" by simp
      with pv have pm: "parseValue conv m' d s = Some (v, r)" by simp
      from parse_bounds[of conv n] pn have lr: "length r < length s" by blast
      show ?thesis
      proof (cases "closes (CHR '','') r")
        case True
        from closes_length[OF True] lr b
        have "2 * length (drop 1 (skipWS r)) + 1 \<le> n" "2 * length (drop 1 (skipWS r)) + 1 \<le> m'"
          by simp_all
        from IHE[OF this] True show ?thesis by (simp add: parseElems.simps m' pn pm)
      next
        case False
        then show ?thesis by (simp add: parseElems.simps m' pn pm)
      qed
    qed
  qed
  have M: "parseMembers conv (Suc n) d acc s = parseMembers conv m d acc s"
    if n: "2 * length s + 1 \<le> Suc n" and m: "2 * length s + 1 \<le> m" for d acc s m
  proof -
    from m obtain m' where m': "m = Suc m'" by (cases m) auto
    show ?thesis
    proof (cases "scanKey s")
      case None
      then show ?thesis by (simp add: parseMembers.simps m')
    next
      case (Some q)
      obtain key r1 where q: "q = (key, r1)" by (cases q)
      from scanKey_length[of s key r1] Some q have l1: "length r1 < length s" by simp
      with n m m' have b: "2 * length r1 \<le> n" "2 * length r1 \<le> m'" by simp_all
      note pv = IHV[OF b, of d]
      show ?thesis
      proof (cases "parseValue conv n d r1")
        case None
        moreover from None pv have "parseValue conv m' d r1 = None" by simp
        ultimately show ?thesis using Some q by (simp add: parseMembers.simps m')
      next
        case sp: (Some p)
        obtain v r where p: "p = (v, r)" by (cases p)
        from sp p have pn: "parseValue conv n d r1 = Some (v, r)" by simp
        with pv have pm: "parseValue conv m' d r1 = Some (v, r)" by simp
        from parse_bounds[of conv n] pn have lr: "length r < length r1" by blast
        show ?thesis
        proof (cases "closes (CHR '','') r")
          case True
          from closes_length[OF True] lr l1 n m m'
          have "2 * length (drop 1 (skipWS r)) + 1 \<le> n" "2 * length (drop 1 (skipWS r)) + 1 \<le> m'"
            by simp_all
          from IHM[OF this] Some q True show ?thesis by (simp add: parseMembers.simps m' pn pm)
        next
          case False
          with Some q show ?thesis by (simp add: parseMembers.simps m' pn pm)
        qed
      qed
    qed
  qed
  from V E M show ?case by blast
qed

lemma Unmarshal_fuel:
  "2 * length s \<le> n \<Longrightarrow>
   Unmarshal conv s =
     (case parseValue conv n 0 s of
        None \<Rightarrow> None
      | Some (v, r) \<Rightarrow> if skipWS r = [] then Some v else None)"
  using parse_fuel[of n conv, THEN conjunct1, rule_format, of s "2 * length s + 1" 0]
  by (simp add: Unmarshal_def)

subsection \<open>encoding/json: Marshal\<close>

text \<open>
  \<^verbatim>\<open>json.Marshal\<close> is the \<^verbatim>\<open>JSONStringify\<close> of the specification: the command line
  program, the WebAssembly binding and the tests all write their result with it. It
  writes compact text: \<^verbatim>\<open>null\<close>, \<^verbatim>\<open>true\<close>, \<^verbatim>\<open>false\<close>, a number as \<^verbatim>\<open>strconv\<close> formats
  a \<^verbatim>\<open>float64\<close> (the parameter \<open>fmt\<close>, floating point not being modelled), a string
  between quotes (\<^verbatim>\<open>appendString\<close>), the elements of an array between brackets and the
  members of a map between braces, sorted by key, with commas between them. Its one
  error on a value of the type \<open>json\<close>, a number that is not finite, is outside the
  model: \<open>fmt\<close> is total.

  \<^verbatim>\<open>appendString\<close> with \<^verbatim>\<open>escapeHTML\<close> set, as \<^verbatim>\<open>Marshal\<close> calls it: a byte below 128 is
  copied when \<^verbatim>\<open>htmlSafeSet\<close> holds it, which is every byte from 32 on but the quote, the
  backslash, the ampersand and the two angle brackets; the quote and the backslash get
  a backslash before them; backspace, form feed, line feed, carriage return and tab are
  written as a backslash and \<^verbatim>\<open>b\<close>, \<^verbatim>\<open>f\<close>, \<^verbatim>\<open>n\<close>, \<^verbatim>\<open>r\<close>, \<^verbatim>\<open>t\<close>; any other such byte is written as
  a \<^verbatim>\<open>u\<close> escape of four hexadecimal digits. A byte that starts no well-formed UTF-8
  sequence becomes the escape of U+FFFD, the code points U+2028 and U+2029 are
  escaped, and every other code point is copied.
\<close>

definition hexDigit :: "nat \<Rightarrow> char" where
  "hexDigit n = (if n < 10 then char_of (48 + n) else char_of (87 + n))"

definition htmlSafe :: "char \<Rightarrow> bool" where
  "htmlSafe c =
     (32 \<le> byte c \<and> byte c < 128 \<and> c \<noteq> CHR 0x22 \<and> c \<noteq> CHR 0x5C
      \<and> c \<noteq> CHR ''&'' \<and> c \<noteq> CHR ''<'' \<and> c \<noteq> CHR ''>'')"

definition escapeByte :: "char \<Rightarrow> string" where
  "escapeByte c =
     (if c = CHR 0x5C \<or> c = CHR 0x22 then [CHR 0x5C, c]
      else if c = CHR 0x08 then [CHR 0x5C, CHR ''b'']
      else if c = CHR 0x0C then [CHR 0x5C, CHR ''f'']
      else if c = CHR 0x0A then [CHR 0x5C, CHR ''n'']
      else if c = CHR 0x0D then [CHR 0x5C, CHR ''r'']
      else if c = CHR 0x09 then [CHR 0x5C, CHR ''t'']
      else [CHR 0x5C, CHR ''u'', CHR ''0'', CHR ''0'',
            hexDigit (byte c div 16), hexDigit (byte c mod 16)])"

function escapeFrom :: "string \<Rightarrow> string" where
  "escapeFrom [] = []"
| "escapeFrom (c # s) =
     (if byte c < 128 then (if htmlSafe c then [c] else escapeByte c) @ escapeFrom s
      else if runeLen (c # s) = 0 then CHR 0x5C # ''ufffd'' @ escapeFrom s
      else if take 3 (c # s) = [CHR 0xE2, CHR 0x80, CHR 0xA8]
        then CHR 0x5C # ''u2028'' @ escapeFrom (drop 2 s)
      else if take 3 (c # s) = [CHR 0xE2, CHR 0x80, CHR 0xA9]
        then CHR 0x5C # ''u2029'' @ escapeFrom (drop 2 s)
      else take (runeLen (c # s)) (c # s) @ escapeFrom (drop (runeLen (c # s) - 1) s))"
  by pat_completeness auto
termination
  by (relation "measure length") auto

definition appendString :: "string \<Rightarrow> string" where
  "appendString src = CHR 0x22 # escapeFrom src @ [CHR 0x22]"

text \<open>
  The members of a map are written in the order of their keys, compared byte by byte
  (\<^verbatim>\<open>strings.Compare\<close>); \<open>sortMembers\<close> puts them in that order.
\<close>

fun lessString :: "string \<Rightarrow> string \<Rightarrow> bool" where
  "lessString [] [] = False"
| "lessString [] (b # t) = True"
| "lessString (a # s) [] = False"
| "lessString (a # s) (b # t) = (byte a < byte b \<or> (a = b \<and> lessString s t))"

fun insertMember :: "string \<times> 'v \<Rightarrow> (string \<times> 'v) list \<Rightarrow> (string \<times> 'v) list" where
  "insertMember kv [] = [kv]"
| "insertMember kv (kv' # m) =
     (if lessString (fst kv) (fst kv') then kv # kv' # m else kv' # insertMember kv m)"

definition sortMembers :: "(string \<times> 'v) list \<Rightarrow> (string \<times> 'v) list" where
  "sortMembers m = foldr insertMember m []"

text \<open>
  \<open>commaSep\<close> joins the texts of the elements with commas, and \<open>memberText\<close> is the
  text of one member: the key, a colon and the text of the value.
\<close>

fun commaSep :: "string list \<Rightarrow> string" where
  "commaSep [] = []"
| "commaSep [t] = t"
| "commaSep (t # u # ts) = t @ CHR '','' # commaSep (u # ts)"

definition memberText :: "string \<times> string \<Rightarrow> string" where
  "memberText kt = appendString (fst kt) @ CHR '':'' # snd kt"

fun Marshal :: "('n \<Rightarrow> string) \<Rightarrow> 'n json \<Rightarrow> string"
  and marshalElems :: "('n \<Rightarrow> string) \<Rightarrow> 'n json list \<Rightarrow> string list"
  and marshalMembers :: "('n \<Rightarrow> string) \<Rightarrow> (string \<times> 'n json) list \<Rightarrow> (string \<times> string) list"
where
  "Marshal fmt (JObject m) =
     CHR ''{'' # commaSep (map memberText (sortMembers (marshalMembers fmt m))) @ ''}''"
| "Marshal fmt (JArray xs) = CHR ''['' # commaSep (marshalElems fmt xs) @ '']''"
| "Marshal fmt (JString s) = appendString s"
| "Marshal fmt (JNumber n) = fmt n"
| "Marshal fmt (JBool b) = (if b then ''true'' else ''false'')"
| "Marshal fmt JNull = ''null''"
| "marshalElems fmt [] = []"
| "marshalElems fmt (x # xs) = Marshal fmt x # marshalElems fmt xs"
| "marshalMembers fmt [] = []"
| "marshalMembers fmt ((k, v) # m) = (k, Marshal fmt v) # marshalMembers fmt m"

section \<open>internal/decoder\<close>

text \<open>
  The four functions of \<^verbatim>\<open>decoder.go\<close> that call one another, and the two tests they
  use. \<open>DecodeBase64Fields\<close> is the entry point (\<^verbatim>\<open>Decode\<close> in the specification).
  \<open>DecodeBase64InMap conv result m\<close> is the loop over the entries of \<open>m\<close>, \<open>result\<close>
  being the map built so far (empty at the call).
\<close>

definition IsBase64 :: "string \<Rightarrow> bool" where
  "IsBase64 s = (if length s mod 4 \<noteq> 0 then False else DecodeString s \<noteq> None)"

definition IsValidJSON :: "(string \<Rightarrow> 'n option) \<Rightarrow> string \<Rightarrow> bool" where
  "IsValidJSON conv s = (Unmarshal conv s \<noteq> None)"

function DecodeBase64String :: "(string \<Rightarrow> 'n option) \<Rightarrow> string \<Rightarrow> 'n json"
  and DecodeBase64InMap :: "(string \<Rightarrow> 'n option) \<Rightarrow> (string \<times> 'n json) list \<Rightarrow> (string \<times> 'n json) list \<Rightarrow> (string \<times> 'n json) list"
  and DecodeBase64InSlice :: "(string \<Rightarrow> 'n option) \<Rightarrow> 'n json list \<Rightarrow> 'n json list"
  and DecodeBase64Fields :: "(string \<Rightarrow> 'n option) \<Rightarrow> 'n json \<Rightarrow> 'n json"
where
  "DecodeBase64String conv s =
     (if \<not> IsBase64 s then JString s
      else
        (case DecodeString s of
           None \<Rightarrow> JString s
         | Some decoded \<Rightarrow>
             if \<not> Valid decoded then JString s
             else
               (let decodedStr = TrimSpace decoded in
                if IsValidJSON conv decodedStr then
                  (case Unmarshal conv decodedStr of
                     Some jsonObj \<Rightarrow> DecodeBase64Fields conv jsonObj
                   | None \<Rightarrow> JString decodedStr)
                else JString decodedStr)))"
| "DecodeBase64InMap conv result [] = result"
| "DecodeBase64InMap conv result ((key, val) # m) =
     DecodeBase64InMap conv (mapAssign key (DecodeBase64Fields conv val) result) m"
| "DecodeBase64InSlice conv [] = []"
| "DecodeBase64InSlice conv (val # s) = DecodeBase64Fields conv val # DecodeBase64InSlice conv s"
| "DecodeBase64Fields conv (JObject v) = JObject (DecodeBase64InMap conv [] v)"
| "DecodeBase64Fields conv (JArray v) = JArray (DecodeBase64InSlice conv v)"
| "DecodeBase64Fields conv (JString v) = DecodeBase64String conv v"
| "DecodeBase64Fields conv (JNumber v) = JNumber v"
| "DecodeBase64Fields conv (JBool v) = JBool v"
| "DecodeBase64Fields conv JNull = JNull"
  by pat_completeness auto

text \<open>
  Termination. The arguments of the four functions are ordered by the length of the
  longest string leaf (\<open>maxStr\<close>) and then by the size of the value: a call on a
  member or an element keeps the first and lowers the second, and the call on the value
  parsed from a decoded string lowers the first, since every string of the parsed value
  is shorter than the text it was parsed from, which is no longer than the decoded
  bytes, which are at most three quarters of the Base64 string.
\<close>

lemma parsed_strings_shorter:
  assumes "DecodeString s = Some d" and "Unmarshal conv (TrimSpace d) = Some x"
  shows "maxStr x < maxStr (JString s)"
proof -
  from Unmarshal_maxStr[OF assms(2)] have "maxStr x < length (TrimSpace d)" .
  also have "\<dots> \<le> length d" by (rule TrimSpace_length)
  also from DecodeString_length[OF assms(1)] have "\<dots> \<le> length s" by simp
  finally show ?thesis by simp
qed

definition callRank ::
  "((string \<Rightarrow> 'n option) \<times> string
     + (string \<Rightarrow> 'n option) \<times> (string \<times> 'n json) list \<times> (string \<times> 'n json) list)
   + ((string \<Rightarrow> 'n option) \<times> 'n json list + (string \<Rightarrow> 'n option) \<times> 'n json)
   \<Rightarrow> nat \<times> nat" where
  "callRank =
     case_sum
       (case_sum (\<lambda>(conv, s). (maxStr (JString s :: 'n json), 0))
          (\<lambda>(conv, result, m). (maxStrm m, Suc (size_list (size_prod (\<lambda>_. 0) size) m))))
       (case_sum (\<lambda>(conv, xs). (maxStrs xs, Suc (size_list size xs)))
          (\<lambda>(conv, v). (maxStr v, Suc (size v))))"

lemma decoder_calls_decrease:
  assumes "DecodeBase64String_DecodeBase64InMap_DecodeBase64InSlice_DecodeBase64Fields_rel x y"
  shows "(callRank x, callRank y) \<in> less_than <*lex*> less_than"
  using assms
  by (cases rule:
      DecodeBase64String_DecodeBase64InMap_DecodeBase64InSlice_DecodeBase64Fields_rel.cases)
    (auto simp: callRank_def max_def dest: parsed_strings_shorter)

lemma decoder_calls_wf:
  "wfP DecodeBase64String_DecodeBase64InMap_DecodeBase64InSlice_DecodeBase64Fields_rel"
proof -
  have "wf (inv_image (less_than <*lex*> less_than) callRank)"
    by (intro wf_inv_image wf_lex_prod wf_less_than)
  then have "wf {(x, y).
      DecodeBase64String_DecodeBase64InMap_DecodeBase64InSlice_DecodeBase64Fields_rel x y}"
    by (rule wf_subset) (auto dest: decoder_calls_decrease)
  then show ?thesis by (simp add: wfp_def)
qed

termination DecodeBase64String
  using decoder_calls_wf by (simp add: wfp_iff_accp)

declare DecodeBase64String.simps [simp del]

section \<open>Base64 encoding and decoding are inverse\<close>

lemma decodeMap_encodeStd: "v < 64 \<Longrightarrow> decodeMap (encodeStd v) = Some v"
  by (auto simp: decodeMap_def encodeStd_def Let_def)

lemma pack_parts:
  fixes a b c d e f :: nat
  shows "a * 4 + b = x \<Longrightarrow> c * 16 + d = y \<Longrightarrow> e * 64 + f = z \<Longrightarrow>
    a * 262144 + (b * 16 + c) * 4096 + (d * 4 + e) * 64 + f = x * 65536 + y * 256 + z"
  by (auto simp: algebra_simps)

lemma pack3:
  fixes x y z :: nat
  shows "x div 4 * 262144 + (x mod 4 * 16 + y div 16) * 4096 + (y mod 16 * 4 + z div 64) * 64
     + z mod 64 = x * 65536 + y * 256 + z"
  by (rule pack_parts) simp_all

lemma unpack3:
  fixes x y z :: nat
  assumes "y < 256" "z < 256"
  shows "(x * 65536 + y * 256 + z) div 65536 = x"
    and "(x * 65536 + y * 256 + z) div 256 mod 256 = y"
    and "(x * 65536 + y * 256 + z) mod 256 = z"
proof -
  let ?v = "x * 65536 + y * 256 + z"
  show "?v div 65536 = x"
    by (rule div_nat_eqI) (use assms in simp_all)
  have d: "?v div 256 = x * 256 + y"
    by (rule div_nat_eqI) (use assms in simp_all)
  have "(x * 256 + y) mod 256 = y mod 256" by (rule mod_mult_self3)
  with assms show "?v div 256 mod 256 = y" unfolding d by simp
  have e: "?v = (x * 256 + y) * 256 + z" by (simp add: algebra_simps)
  have "((x * 256 + y) * 256 + z) mod 256 = z mod 256" by (rule mod_mult_self3)
  with assms show "?v mod 256 = z" unfolding e by simp
qed

lemma quantumBytes_full:
  "quantumBytes [byte a div 4, byte a mod 4 * 16 + byte b div 16,
     byte b mod 16 * 4 + byte c div 64, byte c mod 64] = [a, b, c]"
proof -
  have lt: "byte b < 256" "byte c < 256" by simp_all
  have "quantumBytes [byte a div 4, byte a mod 4 * 16 + byte b div 16,
     byte b mod 16 * 4 + byte c div 64, byte c mod 64]
    = (let val = byte a div 4 * 262144 + (byte a mod 4 * 16 + byte b div 16) * 4096
         + (byte b mod 16 * 4 + byte c div 64) * 64 + byte c mod 64
       in [char_of (val div 65536), char_of (val div 256), char_of val])"
    by (simp add: quantumBytes_def del: mult_Suc_right)
  also have "\<dots> = (let val = byte a * 65536 + byte b * 256 + byte c
       in [char_of (val div 65536), char_of (val div 256), char_of val])"
    unfolding pack3 ..
  also have "\<dots> = [a, b, c]"
  proof -
    let ?v = "byte a * 65536 + byte b * 256 + byte c"
    have "char_of (?v div 65536) = a"
      unfolding unpack3(1)[OF lt] by simp
    moreover have "char_of (?v div 256) = b"
      by (simp add: char_of_eq_iff take_bit_eq_mod unpack3(2)[OF lt])
    moreover have "char_of ?v = c"
      by (simp add: char_of_eq_iff take_bit_eq_mod unpack3(3)[OF lt])
    ultimately show ?thesis by (simp only: Let_def)
  qed
  finally show ?thesis .
qed


lemma decodeMap_pad: "decodeMap (CHR ''='') = None"
  by (simp add: decodeMap_def)

lemma isNewline_pad: "\<not> isNewline (CHR ''='')"
  by (simp add: isNewline_def)

lemma sextets:
  "byte a div 4 < 64" "byte a mod 4 * 16 < 64" "byte a mod 4 * 16 + byte b div 16 < 64"
  "byte b mod 16 * 4 < 64" "byte b mod 16 * 4 + byte c div 64 < 64" "byte c mod 64 < 64"
proof -
  have a4: "byte a mod 4 < 4" and b16: "byte b mod 16 < 16" by simp_all
  have "byte a < 64 * 4" by simp
  then show "byte a div 4 < 64" by (rule less_mult_imp_div_less)
  from a4 show "byte a mod 4 * 16 < 64" by simp
  have "byte b < 16 * 16" by simp
  then have "byte b div 16 < 16" by (rule less_mult_imp_div_less)
  with a4 show "byte a mod 4 * 16 + byte b div 16 < 64" by simp
  from b16 show "byte b mod 16 * 4 < 64" by simp
  have "byte c < 4 * 64" by simp
  then have "byte c div 64 < 4" by (rule less_mult_imp_div_less)
  with b16 show "byte b mod 16 * 4 + byte c div 64 < 64" by simp
  show "byte c mod 64 < 64" by simp
qed

lemma quantumBytes_short:
  "quantumBytes [d0, d1] = [char_of ((d0 * 262144 + d1 * 4096) div 65536)]"
  "quantumBytes [d0, d1, d2] =
     [char_of ((d0 * 262144 + d1 * 4096 + d2 * 64) div 65536),
      char_of ((d0 * 262144 + d1 * 4096 + d2 * 64) div 256)]"
  by (simp_all add: quantumBytes_def Let_def)

lemma quantumBytes_one: "quantumBytes [byte a div 4, byte a mod 4 * 16] = [a]"
proof -
  have "byte a div 4 * 262144 + byte a mod 4 * 16 * 4096 = byte a * 65536 + 0 * 256 + 0"
    using pack_parts[of "byte a div 4" "byte a mod 4" "byte a" 0 0 0 0 0 0] by simp
  then have "(byte a div 4 * 262144 + byte a mod 4 * 16 * 4096) div 65536 = byte a"
    using unpack3(1)[of 0 0 "byte a"] by simp
  then show ?thesis unfolding quantumBytes_short by simp
qed

lemma quantumBytes_two:
  "quantumBytes [byte a div 4, byte a mod 4 * 16 + byte b div 16, byte b mod 16 * 4] = [a, b]"
proof -
  let ?v = "byte a div 4 * 262144 + (byte a mod 4 * 16 + byte b div 16) * 4096
    + byte b mod 16 * 4 * 64"
  have lt: "byte b < 256" by simp
  have e: "?v = byte a * 65536 + byte b * 256 + 0"
    using pack_parts[of "byte a div 4" "byte a mod 4" "byte a" "byte b div 16" "byte b mod 16"
        "byte b" 0 0 0] by simp
  have "?v div 65536 = byte a"
    unfolding e using unpack3(1)[of "byte b" 0 "byte a"] lt by simp
  moreover have "?v div 256 mod 256 = byte b"
    unfolding e using unpack3(2)[of "byte b" 0 "byte a"] lt by simp
  ultimately have "char_of (?v div 65536) = a" "char_of (?v div 256) = b"
    by (simp_all add: char_of_eq_iff take_bit_eq_mod)
  then show ?thesis unfolding quantumBytes_short by simp
qed

lemma EncodeToString_DecodeString: "decodeLoop [] (EncodeToString bs) = Some bs"
proof (induction bs rule: EncodeToString.induct)
  case 1
  show ?case by simp
next
  case (2 a)
  show ?case
    by (simp add: decodeMap_encodeStd sextets decodeMap_pad isNewline_pad quantumBytes_one)
next
  case (3 a b)
  show ?case
    by (simp add: decodeMap_encodeStd sextets decodeMap_pad isNewline_pad quantumBytes_two)
next
  case (4 a b c src)
  then show ?case
    by (simp add: decodeMap_encodeStd sextets quantumBytes_full)
qed

lemma DecodeString_EncodeToString: "DecodeString (EncodeToString bs) = Some bs"
  by (simp add: DecodeString_def EncodeToString_DecodeString)

lemma length_EncodeToString: "length (EncodeToString bs) mod 4 = 0"
  by (induction bs rule: EncodeToString.induct) simp_all

lemma IsBase64_EncodeToString: "IsBase64 (EncodeToString bs)"
  by (simp add: IsBase64_def DecodeString_def EncodeToString_DecodeString length_EncodeToString)


section \<open>Evaluation on concrete inputs\<close>

text \<open>
  Where a concrete conversion of numbers is needed, \<open>asLiteral\<close> keeps the token as it
  is written (as Go's \<^verbatim>\<open>json.Number\<close> does), and \<open>asToken\<close> writes it back.
\<close>

definition asLiteral :: "string \<Rightarrow> string option" where
  "asLiteral lit = Some lit"

definition asToken :: "string \<Rightarrow> string" where
  "asToken n = n"

lemmas base64_eval = DecodeString_def decodeMap_def isNewline_def quantumBytes_def
  char_of_eq_iff take_bit_eq_mod

lemmas utf8_eval = Valid.simps isCont_def

lemmas trim_eval = TrimSpace_def trimLeft.simps trimRightRev.simps asciiSpace_def
  space2_def space3_def

lemmas json_eval = Unmarshal_def skipWS_def isSpaceJSON_def isDigit_def scanLiteral_def
  scanNumber_def scanInt_def scanFrac_def scanExp_def scanSign_def scanDigits_def
  maxNestingDepth_def parseScalar_def closes_def scanKey_def unquoteStep_def
  parseValue.simps parseElems.simps parseMembers.simps
  numeral_eq_Suc simpleEscape_def getu4_def hexVal_def EncodeRune_def isSurrogate_def
  DecodeRune16_def secondSurrogate_def RuneError_def asLiteral_def

lemmas decoder_eval = DecodeBase64String.simps IsValidJSON_def Let_def

section \<open>Scalar leaves\<close>

text \<open>
  C8. For every number, boolean or null leaf \<open>v\<close>, \<open>Decode v = v\<close>: the same type and
  the same value.
\<close>

theorem scalar_identity:
  "DecodeBase64Fields conv (JNumber n) = JNumber n
   \<and> DecodeBase64Fields conv (JBool b) = JBool b
   \<and> DecodeBase64Fields conv JNull = JNull"
  by simp

theorem scalar_identity_witness:
  "DecodeBase64Fields asLiteral (JNumber ''42'') = JNumber ''42''
   \<and> DecodeBase64Fields asLiteral (JBool True) = JBool True
   \<and> DecodeBase64Fields asLiteral JNull = (JNull :: string json)"
  using scalar_identity [of asLiteral "''42''" True] by simp

section \<open>The empty string\<close>

lemma IsBase64_empty: "IsBase64 []"
  by (simp add: IsBase64_def base64_eval)

lemma DecodeString_empty: "DecodeString [] = Some []"
  by (simp add: base64_eval)

lemma Valid_empty: "Valid []"
  by (simp add: utf8_eval)

lemma TrimSpace_empty: "TrimSpace [] = []"
  by (simp add: trim_eval)

lemma Unmarshal_empty: "Unmarshal conv [] = None"
  by (simp add: json_eval)

text \<open>
  C10. \<open>Decode\<close> of the empty string is the empty string: its length 0 is a multiple
  of 4, it decodes to the empty byte sequence, which is valid UTF-8 and trims to the
  empty text, which is not valid JSON.
\<close>

theorem empty_string_unchanged:
  "IsBase64 [] \<and> DecodeString [] = Some [] \<and> Valid [] \<and> TrimSpace [] = []
   \<and> \<not> IsValidJSON conv [] \<and> DecodeBase64Fields conv (JString []) = JString []"
  by (simp add: IsBase64_empty DecodeString_empty Valid_empty TrimSpace_empty
      Unmarshal_empty decoder_eval)

theorem empty_string_unchanged_witness:
  "DecodeBase64Fields asLiteral (JString []) = JString []"
  using empty_string_unchanged [of asLiteral] by simp

section \<open>Binary payloads\<close>

text \<open>
  C5. For every Base64 candidate \<open>s\<close> whose decoded bytes \<open>d\<close> are not valid UTF-8,
  \<open>Decode s = s\<close>: the Base64 string is returned as it is.
\<close>

theorem binary_payload_unchanged:
  "IsBase64 s \<Longrightarrow> DecodeString s = Some d \<Longrightarrow> \<not> Valid d
   \<Longrightarrow> DecodeBase64Fields conv (JString s) = JString s"
  by (simp add: decoder_eval)

lemma binary_DecodeString:
  "DecodeString ''//4AAYCB'' = Some [CHR 0xFF, CHR 0xFE, CHR 0x00, CHR 0x01, CHR 0x80, CHR 0x81]"
  by (simp add: base64_eval)

lemma binary_not_Valid:
  "\<not> Valid [CHR 0xFF, CHR 0xFE, CHR 0x00, CHR 0x01, CHR 0x80, CHR 0x81]"
  by (simp add: utf8_eval)

theorem binary_payload_unchanged_witness:
  "IsBase64 ''//4AAYCB''
   \<and> DecodeString ''//4AAYCB'' = Some [CHR 0xFF, CHR 0xFE, CHR 0x00, CHR 0x01, CHR 0x80, CHR 0x81]
   \<and> \<not> Valid [CHR 0xFF, CHR 0xFE, CHR 0x00, CHR 0x01, CHR 0x80, CHR 0x81]
   \<and> DecodeBase64Fields asLiteral (JString ''//4AAYCB'') = JString ''//4AAYCB''"
proof -
  have c: "IsBase64 ''//4AAYCB''"
    by (simp add: IsBase64_def binary_DecodeString)
  from binary_payload_unchanged [OF c binary_DecodeString binary_not_Valid, of asLiteral]
    c binary_DecodeString binary_not_Valid
  show ?thesis by simp
qed

section \<open>Decoded text that is not JSON\<close>

text \<open>
  C6. For every Base64 candidate \<open>s\<close> whose decoded bytes \<open>d\<close> are valid UTF-8 and
  whose trimmed text \<open>t = TrimSpace d\<close> does not parse as JSON, \<open>Decode s = t\<close>.
\<close>

theorem decoded_text_replaces:
  "IsBase64 s \<Longrightarrow> DecodeString s = Some d \<Longrightarrow> Valid d
   \<Longrightarrow> Unmarshal conv (TrimSpace d) = None
   \<Longrightarrow> DecodeBase64Fields conv (JString s) = JString (TrimSpace d)"
  by (simp add: decoder_eval)

lemma padded_DecodeString:
  "DecodeString ''IEhlbGxvIFdvcmxkCg=='' = Some '' Hello World\<newline>''"
  by (simp add: base64_eval)

lemma padded_Valid: "Valid '' Hello World\<newline>''"
  by (simp add: utf8_eval)

lemma padded_TrimSpace: "TrimSpace '' Hello World\<newline>'' = ''Hello World''"
  by (simp add: trim_eval)

lemma hello_not_JSON: "Unmarshal conv ''Hello World'' = None"
  by (simp add: json_eval)

theorem decoded_text_replaces_witness:
  "IsBase64 ''IEhlbGxvIFdvcmxkCg==''
   \<and> DecodeString ''IEhlbGxvIFdvcmxkCg=='' = Some '' Hello World\<newline>''
   \<and> Valid '' Hello World\<newline>''
   \<and> Unmarshal asLiteral (TrimSpace '' Hello World\<newline>'') = None
   \<and> DecodeBase64Fields asLiteral (JString ''IEhlbGxvIFdvcmxkCg=='') = JString ''Hello World''"
proof -
  have c: "IsBase64 ''IEhlbGxvIFdvcmxkCg==''"
    by (simp add: IsBase64_def padded_DecodeString)
  have u: "Unmarshal asLiteral (TrimSpace '' Hello World\<newline>'') = None"
    by (simp add: padded_TrimSpace hello_not_JSON)
  from decoded_text_replaces [OF c padded_DecodeString padded_Valid u]
    c padded_DecodeString padded_Valid u
  show ?thesis by (simp add: padded_TrimSpace)
qed

section \<open>Base64 text\<close>





lemma runeLen_ascii: "byte a < 128 \<Longrightarrow> runeLen (a # s) = 1"
  by simp

lemma Valid_ascii: "list_all (\<lambda>c. byte c < 128) s \<Longrightarrow> Valid s"
proof (induction s)
  case Nil
  show ?case by (simp add: Valid.simps)
next
  case (Cons a s)
  then have "Valid s" "runeLen (a # s) = 1" by simp_all
  then show ?case by (subst Valid.simps) simp
qed

lemma leadSpace_ascii: "byte a < 128 \<Longrightarrow> \<not> asciiSpace a \<Longrightarrow> leadSpace (a # s) = 0"
  by (cases "(a # s)" rule: leadSpace.cases) (auto simp: space2_def space3_def)

lemma trailSpace_ascii: "byte c < 128 \<Longrightarrow> \<not> asciiSpace c \<Longrightarrow> trailSpace (c # r) = 0"
  by (cases "(c # r)" rule: trailSpace.cases) (auto simp: space2_def space3_def)

lemma TrimSpace_plain:
  assumes "s = [] \<or> (byte (hd s) < 128 \<and> \<not> asciiSpace (hd s)
      \<and> byte (last s) < 128 \<and> \<not> asciiSpace (last s))"
  shows "TrimSpace s = s"
proof (cases s)
  case Nil
  then show ?thesis by (simp add: TrimSpace_def trimLeft.simps trimRightRev.simps)
next
  case (Cons a t)
  with assms have l: "leadSpace s = 0" by (simp add: leadSpace_ascii)
  from Cons obtain c r where r: "rev s = c # r" by (cases "rev s") auto
  from Cons have ne: "s \<noteq> []" by simp
  then have "last s = hd (rev s)" by (simp add: hd_rev)
  with r have "c = last s" by simp
  with assms ne have "trailSpace (c # r) = 0" by (simp add: trailSpace_ascii)
  then have "trailSpace (rev s) = 0" by (simp only: r)
  with l show ?thesis by (simp add: TrimSpace_def trimLeft.simps trimRightRev.simps)
qed














section \<open>Marshal and Unmarshal\<close>

text \<open>
  Strings: the parser reads back what \<^verbatim>\<open>appendString\<close> writes for a string that is
  valid UTF-8.
\<close>

lemma hexVal_hexDigit: "k < 16 \<Longrightarrow> hexVal (hexDigit k) = Some k"
  by (auto simp: hexVal_def hexDigit_def Let_def)

lemma scanString_step:
  "c \<noteq> CHR 0x22 \<Longrightarrow> unquoteStep c s = Some (out, rest) \<Longrightarrow> scanString rest = Some (t, r)
   \<Longrightarrow> scanString (c # s) = Some (out @ t, r)"
  by simp

lemma scanString_high:
  "list_all (\<lambda>b. 128 \<le> byte b) bs \<Longrightarrow> scanString rest = Some (t, r)
   \<Longrightarrow> scanString (bs @ rest) = Some (bs @ t, r)"
proof (induction bs)
  case Nil
  then show ?case by simp
next
  case (Cons b bs)
  then have b: "128 \<le> byte b" and IH: "scanString (bs @ rest) = Some (bs @ t, r)" by simp_all
  from b have ne: "b \<noteq> CHR 0x22" "b \<noteq> CHR 0x5C" by auto
  from b ne have "unquoteStep b (bs @ rest) = Some ([b], bs @ rest)"
    by (simp add: unquoteStep_def)
  from scanString_step[OF ne(1) this IH] show ?case by simp
qed

lemma runeLen_two:
  "194 \<le> byte a \<Longrightarrow> byte a \<le> 223 \<Longrightarrow>
   runeLen (a # s) = (case s of b # _ \<Rightarrow> if isCont b then 2 else 0 | _ \<Rightarrow> 0)"
  by (simp add: Let_def)

lemma runeLen_three:
  "224 \<le> byte a \<Longrightarrow> byte a \<le> 239 \<Longrightarrow>
   runeLen (a # s) =
     (case s of
        b # c # _ \<Rightarrow>
          if (if byte a = 224 then 160 else 128) \<le> byte b
             \<and> byte b \<le> (if byte a = 237 then 159 else 191) \<and> isCont c
          then 3 else 0
      | _ \<Rightarrow> 0)"
  by (simp add: Let_def)

lemma runeLen_four:
  "240 \<le> byte a \<Longrightarrow> byte a \<le> 244 \<Longrightarrow>
   runeLen (a # s) =
     (case s of
        b # c # d # _ \<Rightarrow>
          if (if byte a = 240 then 144 else 128) \<le> byte b
             \<and> byte b \<le> (if byte a = 244 then 143 else 191) \<and> isCont c \<and> isCont d
          then 4 else 0
      | _ \<Rightarrow> 0)"
  by (simp add: Let_def)

lemma runeLen_none:
  "(128 \<le> byte a \<and> byte a < 194) \<or> 244 < byte a \<Longrightarrow> runeLen (a # s) = 0"
  by (auto simp: Let_def)

lemma runeLen_ranges:
  obtains (one) "byte a < 128"
    | (two) "194 \<le> byte a" "byte a \<le> 223"
    | (three) "224 \<le> byte a" "byte a \<le> 239"
    | (four) "240 \<le> byte a" "byte a \<le> 244"
    | (none) "(128 \<le> byte a \<and> byte a < 194) \<or> 244 < byte a"
  by linarith

lemma runeLen_high:
  assumes "128 \<le> byte c" and "runeLen (c # s) \<noteq> 0"
  shows "runeLen (c # s) \<le> length (c # s)
    \<and> list_all (\<lambda>b. 128 \<le> byte b) (take (runeLen (c # s)) (c # s))
    \<and> 2 \<le> runeLen (c # s)"
proof (cases c rule: runeLen_ranges)
  case one
  with assms(1) show ?thesis by simp
next
  case two
  with assms show ?thesis
    by (simp only: runeLen_two[OF two]) (auto simp: isCont_def split: list.splits if_splits)
next
  case three
  with assms show ?thesis
    by (simp only: runeLen_three[OF three]) (auto simp: isCont_def split: list.splits if_splits)
next
  case four
  with assms show ?thesis
    by (simp only: runeLen_four[OF four]) (auto simp: isCont_def split: list.splits if_splits)
next
  case none
  with assms(2) show ?thesis by (simp only: runeLen_none[OF none])
qed

lemma Valid_Cons_ascii: "byte c < 128 \<Longrightarrow> Valid (c # s) \<longleftrightarrow> Valid s"
  by (subst Valid.simps) simp

lemma Valid_drop: "Valid (c # s) \<Longrightarrow> runeLen (c # s) \<noteq> 0 \<and> Valid (drop (runeLen (c # s) - 1) s)"
  by (subst (asm) Valid.simps) (auto split: if_splits simp: drop_Cons')

lemma escapeByte_scan:
  assumes "byte c < 128" and "\<not> htmlSafe c" and "scanString rest = Some (t, r)"
  shows "scanString (escapeByte c @ rest) = Some (c # t, r)"
proof -
  consider (q) "c = CHR 0x5C \<or> c = CHR 0x22"
    | (b) "c = CHR 0x08" | (f) "c = CHR 0x0C" | (n) "c = CHR 0x0A" | (r) "c = CHR 0x0D"
    | (t) "c = CHR 0x09"
    | (u) "c \<noteq> CHR 0x5C" "c \<noteq> CHR 0x22" "c \<noteq> CHR 0x08" "c \<noteq> CHR 0x0C" "c \<noteq> CHR 0x0A"
      "c \<noteq> CHR 0x0D" "c \<noteq> CHR 0x09"
    by blast
  then show ?thesis
  proof cases
    case u
    let ?h = "hexDigit (byte c div 16)" and ?l = "hexDigit (byte c mod 16)"
    from assms(1) have d: "byte c div 16 < 16" by (intro less_mult_imp_div_less) simp
    have m: "byte c mod 16 < 16" by simp
    have z: "hexVal (CHR ''0'') = Some 0" by (simp add: hexVal_def)
    have g: "getu4 (CHR ''0'') (CHR ''0'') ?h ?l = Some (byte c)"
      by (simp add: getu4_def z hexVal_hexDigit[OF d] hexVal_hexDigit[OF m])
    from assms(1) have e: "EncodeRune (byte c) = [c]" by (simp add: EncodeRune_def)
    from assms(1) have s: "\<not> isSurrogate (byte c)" by (simp add: isSurrogate_def)
    have "unquoteStep (CHR 0x5C) (CHR ''u'' # CHR ''0'' # CHR ''0'' # ?h # ?l # rest)
        = Some ([c], rest)"
      by (simp add: unquoteStep_def g e s)
    from scanString_step[OF _ this assms(3)] u show ?thesis by (simp add: escapeByte_def)
  qed (use assms(3) in \<open>auto simp: escapeByte_def unquoteStep_def simpleEscape_def\<close>)
qed

lemma separator_scan:
  assumes "scanString rest = Some (t, r)" and "x = CHR ''8'' \<or> x = CHR ''9''"
  shows "scanString (CHR 0x5C # CHR ''u'' # CHR ''2'' # CHR ''0'' # CHR ''2'' # x # rest)
    = Some ([CHR 0xE2, CHR 0x80, if x = CHR ''8'' then CHR 0xA8 else CHR 0xA9] @ t, r)"
proof -
  have g: "getu4 (CHR ''2'') (CHR ''0'') (CHR ''2'') x = Some (if x = CHR ''8'' then 8232 else 8233)"
    using assms(2) by (auto simp: getu4_def hexVal_def)
  have e: "EncodeRune 8232 = [CHR 0xE2, CHR 0x80, CHR 0xA8]"
    "EncodeRune 8233 = [CHR 0xE2, CHR 0x80, CHR 0xA9]"
    by (simp_all add: EncodeRune_def char_of_eq_iff take_bit_eq_mod)
  have "unquoteStep (CHR 0x5C) (CHR ''u'' # CHR ''2'' # CHR ''0'' # CHR ''2'' # x # rest)
      = Some ([CHR 0xE2, CHR 0x80, if x = CHR ''8'' then CHR 0xA8 else CHR 0xA9], rest)"
    by (simp add: unquoteStep_def g e isSurrogate_def)
  from scanString_step[OF _ this assms(1)] show ?thesis by simp
qed

lemma take3_drop2: "take 3 (c # s) = [a, b, d] \<Longrightarrow> c # s = [a, b, d] @ drop 2 s"
  by (cases s; cases "tl s") (auto simp: take_Cons')

lemma separator_runeLen:
  "take 3 (c # s) = [CHR 0xE2, CHR 0x80, x] \<Longrightarrow> x = CHR 0xA8 \<or> x = CHR 0xA9
   \<Longrightarrow> runeLen (c # s) = 3"
  by (cases s; cases "tl s") (auto simp: take_Cons' Let_def isCont_def)

lemma scanString_escapeFrom:
  "Valid t \<Longrightarrow> scanString (escapeFrom t @ CHR 0x22 # r) = Some (t, r)"
proof (induction t rule: escapeFrom.induct)
  case 1
  show ?case by simp
next
  case (2 c s)
  show ?case
  proof (cases "byte c < 128")
    case True
    with "2.prems" have v: "Valid s" by (simp add: Valid_Cons_ascii)
    note IH = "2.IH"(1)[OF True v]
    show ?thesis
    proof (cases "htmlSafe c")
      case safe: True
      then have "unquoteStep c (escapeFrom s @ CHR 0x22 # r) = Some ([c], escapeFrom s @ CHR 0x22 # r)"
        by (auto simp: htmlSafe_def unquoteStep_def)
      from scanString_step[OF _ this IH] safe True show ?thesis by (simp add: htmlSafe_def)
    next
      case False
      from escapeByte_scan[OF True False IH] True False show ?thesis by simp
    qed
  next
    case high: False
    from Valid_drop[OF "2.prems"] have rl: "runeLen (c # s) \<noteq> 0"
      and v: "Valid (drop (runeLen (c # s) - 1) s)" by simp_all
    show ?thesis
    proof (cases "take 3 (c # s) = [CHR 0xE2, CHR 0x80, CHR 0xA8]")
      case ls: True
      from separator_runeLen[OF ls] have n: "runeLen (c # s) = 3" by simp
      with v have v2: "Valid (drop 2 s)" by simp
      note IH = "2.IH"(3)[OF high rl ls v2]
      from separator_scan[OF IH, of "CHR ''8''"] take3_drop2[OF ls] high rl ls
      show ?thesis by simp
    next
      case nls: False
      show ?thesis
      proof (cases "take 3 (c # s) = [CHR 0xE2, CHR 0x80, CHR 0xA9]")
        case ps: True
        from separator_runeLen[OF ps] have n: "runeLen (c # s) = 3" by simp
        with v have v2: "Valid (drop 2 s)" by simp
        note IH = "2.IH"(4)[OF high rl nls ps v2]
        from separator_scan[OF IH, of "CHR ''9''"] take3_drop2[OF ps] high rl nls ps
        show ?thesis by simp
      next
        case nps: False
        note IH = "2.IH"(5)[OF high rl nls nps v]
        from high have h: "128 \<le> byte c" by simp
        from runeLen_high[OF h rl]
        have le: "runeLen (c # s) \<le> length (c # s)"
          and hb: "list_all (\<lambda>b. 128 \<le> byte b) (take (runeLen (c # s)) (c # s))"
          and two: "2 \<le> runeLen (c # s)" by simp_all
        have split: "take (runeLen (c # s)) (c # s) @ drop (runeLen (c # s) - 1) s = c # s"
          using two by (cases "runeLen (c # s)") simp_all
        have ef: "escapeFrom (c # s)
            = take (runeLen (c # s)) (c # s) @ escapeFrom (drop (runeLen (c # s) - 1) s)"
          by (simp only: escapeFrom.simps high rl nls nps if_False simp_thms)
        from scanString_high[OF hb IH]
        show ?thesis unfolding ef append_assoc split .
      qed
    qed
  qed
qed

text \<open>
  Numbers: a number token is read in full when the text after it starts with a comma
  or a closing bracket or brace (\<open>ends\<close>), and it is made of digits, signs, a point
  and an exponent mark (\<open>numChar\<close>).
\<close>

definition ends :: "string \<Rightarrow> bool" where
  "ends r = (case r of [] \<Rightarrow> True | c # _ \<Rightarrow> c = CHR '','' \<or> c = CHR '']'' \<or> c = CHR ''}'')"

definition numChar :: "char \<Rightarrow> bool" where
  "numChar c = (isDigit c \<or> c = CHR ''-'' \<or> c = CHR ''+'' \<or> c = CHR ''.'' \<or> c = CHR ''e''
     \<or> c = CHR ''E'')"

lemma ends_Cons: "ends (c # r) \<Longrightarrow> \<not> numChar c"
  by (auto simp: ends_def numChar_def isDigit_def)

lemma digits_append:
  "ends r \<Longrightarrow> takeWhile isDigit (s @ r) = takeWhile isDigit s
     \<and> dropWhile isDigit (s @ r) = dropWhile isDigit s @ r"
proof (induction s)
  case Nil
  then show ?case by (cases r) (auto dest: ends_Cons simp: numChar_def)
next
  case (Cons a s)
  then show ?case by simp
qed

lemma scanDigits_append:
  "scanDigits s = Some (ds, rest) \<Longrightarrow> ends r \<Longrightarrow> scanDigits (s @ r) = Some (ds, rest @ r)"
  by (auto simp: scanDigits_def digits_append split: if_splits)

lemma scanInt_append:
  "scanInt s = Some (i, rest) \<Longrightarrow> ends r \<Longrightarrow> scanInt (s @ r) = Some (i, rest @ r)"
  by (cases s) (auto simp: scanInt_def digits_append split: if_splits)

lemma scanFrac_append:
  "scanFrac s = Some (f, rest) \<Longrightarrow> ends r \<Longrightarrow> scanFrac (s @ r) = Some (f, rest @ r)"
proof (cases s)
  case Nil
  assume "scanFrac s = Some (f, rest)" "ends r"
  with Nil show ?thesis
    by (cases r) (auto simp: scanFrac_def dest: ends_Cons simp: numChar_def)
next
  case (Cons c t)
  assume "scanFrac s = Some (f, rest)" "ends r"
  with Cons show ?thesis
    by (auto simp: scanFrac_def split: if_splits dest: scanDigits_append)
qed

lemma scanSign_append:
  "scanSign s = (sg, rest) \<Longrightarrow> ends r \<Longrightarrow> scanSign (s @ r) = (sg, rest @ r)"
proof (cases s)
  case Nil
  assume "scanSign s = (sg, rest)" "ends r"
  with Nil show ?thesis
    by (cases r) (auto simp: scanSign_def dest: ends_Cons simp: numChar_def)
next
  case (Cons c t)
  assume "scanSign s = (sg, rest)" "ends r"
  with Cons show ?thesis by (auto simp: scanSign_def split: if_splits)
qed

lemma scanExp_append:
  "scanExp s = Some (e, rest) \<Longrightarrow> ends r \<Longrightarrow> scanExp (s @ r) = Some (e, rest @ r)"
proof (cases s)
  case Nil
  assume "scanExp s = Some (e, rest)" "ends r"
  with Nil show ?thesis
    by (cases r) (auto simp: scanExp_def dest: ends_Cons simp: numChar_def)
next
  case (Cons c t)
  assume a: "scanExp s = Some (e, rest)" "ends r"
  show ?thesis
  proof (cases "c = CHR ''e'' \<or> c = CHR ''E''")
    case False
    with a Cons show ?thesis by (auto simp: scanExp_def)
  next
    case True
    obtain sg r1 where sg: "scanSign t = (sg, r1)" by (cases "scanSign t")
    with a True Cons obtain ds where ds: "scanDigits r1 = Some (ds, rest)" and e: "e = c # sg @ ds"
      by (auto simp: scanExp_def)
    from scanSign_append[OF sg a(2)] scanDigits_append[OF ds a(2)] True Cons e
    show ?thesis by (auto simp: scanExp_def)
  qed
qed

lemma scanNumber_append:
  assumes "scanNumber s = Some (lit, rest)" and "ends r"
  shows "scanNumber (s @ r) = Some (lit, rest @ r)"
proof -
  define neg where "neg = (if s \<noteq> [] \<and> hd s = CHR ''-'' then ''-'' else [])"
  define s0 where "s0 = (if s \<noteq> [] \<and> hd s = CHR ''-'' then tl s else s)"
  have p: "(case s of c # r \<Rightarrow> if c = CHR ''-'' then ([c], r) else ([], s) | [] \<Rightarrow> ([], s))
      = (neg, s0)"
    by (cases s) (auto simp: neg_def s0_def)
  from assms(1) obtain i s1 f s2 e where
    i: "scanInt s0 = Some (i, s1)" and f: "scanFrac s1 = Some (f, s2)"
    and e: "scanExp s2 = Some (e, rest)" and lit: "lit = neg @ i @ f @ e"
    unfolding scanNumber_def p by (auto split: option.splits)
  from i have ne: "s0 \<noteq> []" by (auto simp: scanInt_def)
  then have sne: "s \<noteq> []" by (auto simp: s0_def split: if_splits)
  have p': "(case s @ r of c # r' \<Rightarrow> if c = CHR ''-'' then ([c], r') else ([], s @ r)
        | [] \<Rightarrow> ([], s @ r))
      = (neg, s0 @ r)"
    using sne by (cases s) (auto simp: neg_def s0_def)
  from scanInt_append[OF i assms(2)] scanFrac_append[OF f assms(2)] scanExp_append[OF e assms(2)]
  show ?thesis unfolding scanNumber_def p' by (simp add: lit)
qed

lemma scanDigits_chars:
  "scanDigits s = Some (ds, r) \<Longrightarrow> ds \<noteq> [] \<and> list_all isDigit ds"
  by (auto simp: scanDigits_def list_all_iff split: if_splits dest: set_takeWhileD)

lemma isDigit_0: "isDigit (CHR ''0'')"
  by (simp add: isDigit_def)

lemma scanInt_chars:
  "scanInt s = Some (i, r) \<Longrightarrow> i \<noteq> [] \<and> list_all isDigit i"
  by (cases s)
    (auto simp: scanInt_def isDigit_0 list_all_iff split: if_splits dest: set_takeWhileD)

lemma scanFrac_chars:
  "scanFrac s = Some (f, r) \<Longrightarrow> f = [] \<or> (f \<noteq> [] \<and> list_all numChar f \<and> isDigit (last f))"
  by (cases s)
    (auto simp: scanFrac_def numChar_def list_all_iff split: if_splits
      dest!: scanDigits_chars)

lemma scanExp_chars:
  "scanExp s = Some (e, r) \<Longrightarrow> e = [] \<or> (e \<noteq> [] \<and> list_all numChar e \<and> isDigit (last e))"
proof (cases s)
  case Nil
  assume "scanExp s = Some (e, r)"
  with Nil show ?thesis by (simp add: scanExp_def)
next
  case (Cons c t)
  assume a: "scanExp s = Some (e, r)"
  show ?thesis
  proof (cases "c = CHR ''e'' \<or> c = CHR ''E''")
    case False
    with a Cons show ?thesis by (auto simp: scanExp_def)
  next
    case True
    obtain sg r1 where sg: "scanSign t = (sg, r1)" by (cases "scanSign t")
    with a True Cons obtain ds where ds: "scanDigits r1 = Some (ds, r)" and e: "e = c # sg @ ds"
      by (auto simp: scanExp_def)
    from sg have "list_all numChar sg"
      by (cases t) (auto simp: scanSign_def numChar_def split: if_splits)
    with scanDigits_chars[OF ds] e True show ?thesis
      by (auto simp: numChar_def list_all_iff)
  qed
qed

lemma scanNumber_chars:
  assumes "scanNumber s = Some (lit, r)"
  shows "lit \<noteq> [] \<and> (hd lit = CHR ''-'' \<or> isDigit (hd lit))
    \<and> list_all numChar lit \<and> isDigit (last lit)"
proof -
  define neg where "neg = (if s \<noteq> [] \<and> hd s = CHR ''-'' then ''-'' else [])"
  define s0 where "s0 = (if s \<noteq> [] \<and> hd s = CHR ''-'' then tl s else s)"
  have p: "(case s of c # r \<Rightarrow> if c = CHR ''-'' then ([c], r) else ([], s) | [] \<Rightarrow> ([], s))
      = (neg, s0)"
    by (cases s) (auto simp: neg_def s0_def)
  from assms(1) obtain i s1 f s2 e where
    i: "scanInt s0 = Some (i, s1)" and f: "scanFrac s1 = Some (f, s2)"
    and e: "scanExp s2 = Some (e, r)" and lit: "lit = neg @ i @ f @ e"
    unfolding scanNumber_def p by (auto split: option.splits)
  from scanInt_chars[OF i] have i': "i \<noteq> []" "list_all isDigit i" by simp_all
  then have il: "isDigit (last i)" "isDigit (hd i)" by (auto simp: list_all_iff)
  from i' have in': "list_all numChar i" by (auto simp: list_all_iff numChar_def)
  have step: "a @ b \<noteq> [] \<and> list_all numChar (a @ b) \<and> isDigit (last (a @ b))"
    if "a \<noteq> []" "list_all numChar a" "isDigit (last a)"
      "b = [] \<or> (b \<noteq> [] \<and> list_all numChar b \<and> isDigit (last b))" for a b
    using that by auto
  from step[OF i'(1) in' il(1) scanFrac_chars[OF f]]
  have "i @ f \<noteq> []" "list_all numChar (i @ f)" "isDigit (last (i @ f))" by simp_all
  from step[OF this scanExp_chars[OF e]]
  have t: "i @ f @ e \<noteq> []" "list_all numChar (i @ f @ e)" "isDigit (last (i @ f @ e))"
    by simp_all
  have h: "hd (i @ f @ e) = hd i" using i'(1) by simp
  show ?thesis
  proof (cases "neg = []")
    case True
    with t h il(2) show ?thesis unfolding lit by simp
  next
    case False
    then have "neg = ''-''" by (auto simp: neg_def split: if_splits)
    moreover from i'(1) have "last (CHR ''-'' # i @ f @ e) = last (i @ f @ e)" by simp
    ultimately show ?thesis using t(2,3) unfolding lit by (simp add: numChar_def)
  qed
qed

text \<open>
  \<open>depth x\<close> is the number of arrays and objects nested in \<open>x\<close>, itself included.
  \<open>canonical conv fmt x\<close> says that \<open>x\<close> is a JSON value as the codec has it: every
  string and key is valid UTF-8, every number is written by \<open>fmt\<close> as a number token
  that \<open>conv\<close> reads back (as \<^verbatim>\<open>strconv\<close> does for a finite \<^verbatim>\<open>float64\<close>), and the members
  of every object are listed in the order of their keys, each key once, which is the
  order that \<^verbatim>\<open>Marshal\<close> writes them in.
\<close>

fun depth :: "'n json \<Rightarrow> nat"
  and depths :: "'n json list \<Rightarrow> nat"
  and depthm :: "(string \<times> 'n json) list \<Rightarrow> nat"
where
  "depth (JObject m) = Suc (depthm m)"
| "depth (JArray xs) = Suc (depths xs)"
| "depth (JString s) = 0"
| "depth (JNumber n) = 0"
| "depth (JBool b) = 0"
| "depth JNull = 0"
| "depths [] = 0"
| "depths (x # xs) = max (depth x) (depths xs)"
| "depthm [] = 0"
| "depthm ((k, v) # m) = max (depth v) (depthm m)"

fun canonical :: "(string \<Rightarrow> 'n option) \<Rightarrow> ('n \<Rightarrow> string) \<Rightarrow> 'n json \<Rightarrow> bool"
  and canonicalElems :: "(string \<Rightarrow> 'n option) \<Rightarrow> ('n \<Rightarrow> string) \<Rightarrow> 'n json list \<Rightarrow> bool"
  and canonicalMembers ::
    "(string \<Rightarrow> 'n option) \<Rightarrow> ('n \<Rightarrow> string) \<Rightarrow> (string \<times> 'n json) list \<Rightarrow> bool"
where
  "canonical conv fmt (JObject m) =
     (sorted_wrt lessString (map fst m) \<and> canonicalMembers conv fmt m)"
| "canonical conv fmt (JArray xs) = canonicalElems conv fmt xs"
| "canonical conv fmt (JString s) = Valid s"
| "canonical conv fmt (JNumber n) =
     (scanNumber (fmt n) = Some (fmt n, []) \<and> conv (fmt n) = Some n)"
| "canonical conv fmt (JBool b) = True"
| "canonical conv fmt JNull = True"
| "canonicalElems conv fmt [] = True"
| "canonicalElems conv fmt (x # xs) = (canonical conv fmt x \<and> canonicalElems conv fmt xs)"
| "canonicalMembers conv fmt [] = True"
| "canonicalMembers conv fmt ((k, v) # m) =
     (Valid k \<and> canonical conv fmt v \<and> canonicalMembers conv fmt m)"

definition startChar :: "char \<Rightarrow> bool" where
  "startChar c =
     (c = CHR ''{'' \<or> c = CHR ''['' \<or> c = CHR 0x22 \<or> c = CHR ''t'' \<or> c = CHR ''f''
      \<or> c = CHR ''n'' \<or> c = CHR ''-'' \<or> isDigit c)"

lemma startChar_plain:
  assumes "startChar c"
  shows "\<not> isSpaceJSON c" "c \<noteq> CHR '']''" "c \<noteq> CHR ''}''" "c \<noteq> CHR '',''" "byte c < 128"
    "\<not> asciiSpace c"
  using assms by (auto simp: startChar_def isSpaceJSON_def isDigit_def asciiSpace_def)

lemma lessString_irrefl: "\<not> lessString s s"
  by (induction s) simp_all

lemma sorted_distinct: "sorted_wrt lessString ks \<Longrightarrow> distinct ks"
  by (induction ks) (auto simp: lessString_irrefl)

lemma sortMembers_sorted: "sorted_wrt lessString (map fst m) \<Longrightarrow> sortMembers m = m"
proof (induction m)
  case Nil
  show ?case by (simp add: sortMembers_def)
next
  case (Cons kv m)
  then have s: "sortMembers m = m" by simp
  have "sortMembers (kv # m) = insertMember kv (sortMembers m)" by (simp add: sortMembers_def)
  also have "\<dots> = insertMember kv m" by (simp only: s)
  also from Cons.prems have "\<dots> = kv # m" by (cases m) auto
  finally show ?case .
qed

lemma keys_marshalMembers: "map fst (marshalMembers fmt m) = map fst m"
  by (induction m) auto

lemma commaSep_Cons: "commaSep (t # ts) = (if ts = [] then t else t @ CHR '','' # commaSep ts)"
  by (cases ts) simp_all

lemma Marshal_start:
  "canonical conv fmt x \<Longrightarrow> \<exists>c t. Marshal fmt x = c # t \<and> startChar c"
proof (cases x)
  case (JNumber n)
  assume "canonical conv fmt x"
  with JNumber have "scanNumber (fmt n) = Some (fmt n, [])" by simp
  from scanNumber_chars[OF this] JNumber show ?thesis
    by (cases "fmt n") (auto simp: startChar_def)
qed (auto simp: startChar_def appendString_def)

lemma skipWS_start: "\<not> isSpaceJSON c \<Longrightarrow> skipWS (c # s) = c # s"
  by (simp add: skipWS_def)

lemma closes_same: "\<not> isSpaceJSON c \<Longrightarrow> closes c (c # r) \<and> drop 1 (skipWS (c # r)) = r"
  by (simp add: closes_def skipWS_def)

lemma closes_other: "\<not> isSpaceJSON c' \<Longrightarrow> c' \<noteq> c \<Longrightarrow> \<not> closes c (c' # r)"
  by (simp add: closes_def skipWS_def)

lemma marks_nonspace:
  "\<not> isSpaceJSON (CHR '']'')" "\<not> isSpaceJSON (CHR ''}'')" "\<not> isSpaceJSON (CHR '','')"
  "\<not> isSpaceJSON (CHR ''['')" "\<not> isSpaceJSON (CHR ''{'')" "\<not> isSpaceJSON (CHR 0x22)"
  "\<not> isSpaceJSON (CHR '':'')"
  by (simp_all add: isSpaceJSON_def)

lemma ends_marks: "ends (CHR '']'' # r)" "ends (CHR ''}'' # r)" "ends (CHR '','' # r)" "ends []"
  by (simp_all add: ends_def)

lemma parseValue_scalar:
  "\<not> isSpaceJSON c \<Longrightarrow> c \<noteq> CHR ''{'' \<Longrightarrow> c \<noteq> CHR ''['' \<Longrightarrow>
   parseValue conv (Suc n) d (c # s) = parseScalar conv c s"
  by (simp add: parseValue.simps skipWS_start)

lemma parseValue_array:
  "d < maxNestingDepth \<Longrightarrow>
   parseValue conv (Suc n) d (CHR ''['' # s)
   = (if closes (CHR '']'') s then Some (JArray [], drop 1 (skipWS s))
      else map_option (\<lambda>(xs, r'). (JArray xs, r')) (parseElems conv n (Suc d) [] s))"
  by (simp add: parseValue.simps skipWS_start marks_nonspace)

lemma parseValue_object:
  "d < maxNestingDepth \<Longrightarrow>
   parseValue conv (Suc n) d (CHR ''{'' # s)
   = (if closes (CHR ''}'') s then Some (JObject [], drop 1 (skipWS s))
      else map_option (\<lambda>(m, r'). (JObject m, r')) (parseMembers conv n (Suc d) [] s))"
  by (simp add: parseValue.simps skipWS_start marks_nonspace)

lemma scanKey_appendString:
  "Valid k \<Longrightarrow> scanKey (appendString k @ CHR '':'' # s) = Some (k, s)"
  by (simp add: scanKey_def appendString_def skipWS_start marks_nonspace scanString_escapeFrom)

text \<open>
  The parser reads the text of a canonical value back to the value, as long as no more
  than \<open>maxNestingDepth\<close> arrays and objects are open at any point.
\<close>

lemma parseValue_scalar':
  "0 < n \<Longrightarrow> \<not> isSpaceJSON c \<Longrightarrow> c \<noteq> CHR ''{'' \<Longrightarrow> c \<noteq> CHR ''['' \<Longrightarrow>
   parseValue conv n d (c # s) = parseScalar conv c s"
  by (cases n) (simp_all add: parseValue_scalar)

lemma parseScalar_literals:
  "parseScalar conv (CHR ''t'') (''rue'' @ r) = Some (JBool True, r)"
  "parseScalar conv (CHR ''f'') (''alse'' @ r) = Some (JBool False, r)"
  "parseScalar conv (CHR ''n'') (''ull'' @ r) = Some (JNull, r)"
  by (simp_all add: parseScalar_def scanLiteral_def)

lemma parse_Marshal:
  "canonical conv fmt x \<longrightarrow>
     (\<forall>n d r. d + depth x \<le> maxNestingDepth \<longrightarrow> ends r
        \<longrightarrow> 2 * length (Marshal fmt x @ r) \<le> n
        \<longrightarrow> parseValue conv n d (Marshal fmt x @ r) = Some (x, r))"
  "canonicalElems conv fmt xs \<longrightarrow> xs \<noteq> [] \<longrightarrow>
     (\<forall>n d acc r. d + depths xs \<le> maxNestingDepth
        \<longrightarrow> 2 * length (commaSep (marshalElems fmt xs) @ CHR '']'' # r) + 1 \<le> n
        \<longrightarrow> parseElems conv n d acc (commaSep (marshalElems fmt xs) @ CHR '']'' # r)
            = Some (acc @ xs, r))"
  "canonicalMembers conv fmt m \<longrightarrow> m \<noteq> [] \<longrightarrow>
     (\<forall>n d acc r. d + depthm m \<le> maxNestingDepth \<longrightarrow> distinct (map fst (acc @ m))
        \<longrightarrow> 2 * length (commaSep (map memberText (marshalMembers fmt m)) @ CHR ''}'' # r) + 1 \<le> n
        \<longrightarrow> parseMembers conv n d acc
              (commaSep (map memberText (marshalMembers fmt m)) @ CHR ''}'' # r)
            = Some (acc @ m, r))"
proof (induction fmt x and fmt xs and fmt m rule: Marshal_marshalElems_marshalMembers.induct)
  case (1 fmt m)
  show ?case
  proof (intro impI allI)
    fix n d r
    assume c: "canonical conv fmt (JObject m)"
      and dp: "d + depth (JObject m) \<le> maxNestingDepth"
      and n: "2 * length (Marshal fmt (JObject m) @ r) \<le> n"
    from c have srt: "sorted_wrt lessString (map fst m)" and cm: "canonicalMembers conv fmt m"
      by simp_all
    from srt have "sorted_wrt lessString (map fst (marshalMembers fmt m))"
      by (simp add: keys_marshalMembers)
    then have sm: "sortMembers (marshalMembers fmt m) = marshalMembers fmt m"
      by (rule sortMembers_sorted)
    from dp have d: "d < maxNestingDepth" and d': "Suc d + depthm m \<le> maxNestingDepth"
      by simp_all
    from n obtain n' where n': "n = Suc n'" by (cases n) auto
    show "parseValue conv n d (Marshal fmt (JObject m) @ r) = Some (JObject m, r)"
    proof (cases "m = []")
      case True
      then show ?thesis
        by (simp add: n' parseValue_object[OF d] closes_same skipWS_start marks_nonspace sortMembers_def)
    next
      case False
      then obtain k v m' where m: "m = (k, v) # m'" by (cases m) auto
      let ?t = "commaSep (map memberText (marshalMembers fmt m)) @ CHR ''}'' # r"
      have hd: "\<exists>t. ?t = CHR 0x22 # t"
        by (simp add: m commaSep_Cons memberText_def appendString_def)
      then have nc: "\<not> closes (CHR ''}'') ?t"
        by (auto simp: closes_other marks_nonspace)
      from srt have dist: "distinct (map fst ([] @ m))" by (simp add: sorted_distinct)
      from n n' have f: "2 * length ?t + 1 \<le> n'" by (simp add: sm)
      from 1 cm False d' dist f
      have "parseMembers conv n' (Suc d) [] ?t = Some ([] @ m, r)" by blast
      with nc show ?thesis by (simp add: n' parseValue_object[OF d] sm)
    qed
  qed
next
  case (2 fmt xs)
  show ?case
  proof (intro impI allI)
    fix n d r
    assume c: "canonical conv fmt (JArray xs)"
      and dp: "d + depth (JArray xs) \<le> maxNestingDepth"
      and n: "2 * length (Marshal fmt (JArray xs) @ r) \<le> n"
    from c have ce: "canonicalElems conv fmt xs" by simp
    from dp have d: "d < maxNestingDepth" and d': "Suc d + depths xs \<le> maxNestingDepth"
      by simp_all
    from n obtain n' where n': "n = Suc n'" by (cases n) auto
    show "parseValue conv n d (Marshal fmt (JArray xs) @ r) = Some (JArray xs, r)"
    proof (cases "xs = []")
      case True
      then show ?thesis
        by (simp add: n' parseValue_array[OF d] closes_same skipWS_start marks_nonspace)
    next
      case False
      then obtain x xs' where xs: "xs = x # xs'" by (cases xs) auto
      let ?t = "commaSep (marshalElems fmt xs) @ CHR '']'' # r"
      from ce xs have "canonical conv fmt x" by simp
      from Marshal_start[OF this] obtain c0 t0 where "Marshal fmt x = c0 # t0" "startChar c0"
        by blast
      then have "\<exists>t. ?t = c0 # t" "\<not> isSpaceJSON c0" "c0 \<noteq> CHR '']''"
        by (simp_all add: xs commaSep_Cons startChar_plain)
      then have nc: "\<not> closes (CHR '']'') ?t"
        by (auto simp: closes_other)
      from n n' have f: "2 * length ?t + 1 \<le> n'" by simp
      from 2 ce False d' f
      have "parseElems conv n' (Suc d) [] ?t = Some ([] @ xs, r)" by blast
      with nc show ?thesis by (simp add: n' parseValue_array[OF d])
    qed
  qed
next
  case (3 fmt s)
  show ?case
  proof (intro impI allI)
    fix n d r
    assume c: "canonical conv fmt (JString s)"
      and n: "2 * length (Marshal fmt (JString s) @ r) \<le> n"
    from n have "0 < n" by (simp add: appendString_def)
    with c show "parseValue conv n d (Marshal fmt (JString s) @ r) = Some (JString s, r)"
      by (simp add: appendString_def parseValue_scalar' marks_nonspace parseScalar_def
          scanString_escapeFrom)
  qed
next
  case (4 fmt n)
  show ?case
  proof (intro impI allI)
    fix k d r
    assume c: "canonical conv fmt (JNumber n)" and e: "ends r"
      and k: "2 * length (Marshal fmt (JNumber n) @ r) \<le> k"
    from c have sn: "scanNumber (fmt n) = Some (fmt n, [])" and cv: "conv (fmt n) = Some n"
      by simp_all
    from scanNumber_chars[OF sn] obtain c0 t0 where f: "fmt n = c0 # t0"
      and st: "c0 = CHR ''-'' \<or> isDigit c0"
      by (cases "fmt n") auto
    from st have sc: "startChar c0" by (auto simp: startChar_def)
    from st have ne: "c0 \<noteq> CHR ''{''" "c0 \<noteq> CHR ''[''" "c0 \<noteq> CHR 0x22" "c0 \<noteq> CHR ''t''"
      "c0 \<noteq> CHR ''f''" "c0 \<noteq> CHR ''n''"
      by (auto simp: isDigit_def)
    from k f obtain k' where k': "k = Suc k'" by (cases k) auto
    from scanNumber_append[OF sn e] f have "scanNumber (c0 # t0 @ r) = Some (fmt n, r)" by simp
    with st ne cv have "parseScalar conv c0 (t0 @ r) = Some (JNumber n, r)"
      by (auto simp: parseScalar_def)
    with f show "parseValue conv k d (Marshal fmt (JNumber n) @ r) = Some (JNumber n, r)"
      by (simp add: k' parseValue_scalar startChar_plain[OF sc] ne)
  qed
next
  case (5 fmt b)
  show ?case
  proof (intro impI allI)
    fix n d r
    assume "2 * length (Marshal fmt (JBool b) @ r) \<le> n"
    then have "0 < n" by (cases b) auto
    then show "parseValue conv n d (Marshal fmt (JBool b) @ r) = Some (JBool b, r)"
      using parseScalar_literals(1,2)[of conv r]
      by (cases b) (simp_all add: parseValue_scalar' isSpaceJSON_def)
  qed
next
  case (6 fmt)
  show ?case
  proof (intro impI allI)
    fix n d r
    assume "2 * length (Marshal fmt JNull @ r) \<le> n"
    then have "0 < n" by auto
    then show "parseValue conv n d (Marshal fmt JNull @ r) = Some (JNull, r)"
      using parseScalar_literals(3)[of conv r]
      by (simp add: parseValue_scalar' isSpaceJSON_def)
  qed
next
  case (7 fmt)
  show ?case by simp
next
  case (8 fmt x xs)
  show ?case
  proof (intro impI allI)
    fix n d acc r
    assume c: "canonicalElems conv fmt (x # xs)"
      and dp: "d + depths (x # xs) \<le> maxNestingDepth"
      and n: "2 * length (commaSep (marshalElems fmt (x # xs)) @ CHR '']'' # r) + 1 \<le> n"
    from c have cx: "canonical conv fmt x" and cxs: "canonicalElems conv fmt xs" by simp_all
    from dp have dx: "d + depth x \<le> maxNestingDepth" and dxs: "d + depths xs \<le> maxNestingDepth"
      by simp_all
    from n obtain n' where n': "n = Suc n'" by (cases n) auto
    from Marshal_start[OF cx] have len: "0 < length (Marshal fmt x)" by auto
    show "parseElems conv n d acc (commaSep (marshalElems fmt (x # xs)) @ CHR '']'' # r)
        = Some (acc @ x # xs, r)"
    proof (cases "xs = []")
      case True
      from n n' True have f: "2 * length (Marshal fmt x @ CHR '']'' # r) \<le> n'" by simp
      from 8(1) cx dx f ends_marks(1)
      have "parseValue conv n' d (Marshal fmt x @ CHR '']'' # r) = Some (x, CHR '']'' # r)"
        by blast
      then show ?thesis
        by (simp add: True n' parseElems.simps closes_same skipWS_start closes_other marks_nonspace)
    next
      case False
      let ?rest = "commaSep (marshalElems fmt xs) @ CHR '']'' # r"
      from False have t: "commaSep (marshalElems fmt (x # xs)) @ CHR '']'' # r
          = Marshal fmt x @ CHR '','' # ?rest"
        by (cases xs) (simp_all add: commaSep_Cons)
      from n n' have f: "2 * length (Marshal fmt x @ CHR '','' # ?rest) \<le> n'"
        unfolding t by simp
      from 8(1) cx dx f ends_marks(3)
      have pv: "parseValue conv n' d (Marshal fmt x @ CHR '','' # ?rest)
          = Some (x, CHR '','' # ?rest)"
        by blast
      from n n' len have f2: "2 * length ?rest + 1 \<le> n'" unfolding t by simp
      from 8(2) cxs False dxs f2
      have "parseElems conv n' d (acc @ [x]) ?rest = Some ((acc @ [x]) @ xs, r)" by blast
      with pv show ?thesis
        unfolding t by (simp add: n' parseElems.simps closes_same skipWS_start marks_nonspace)
    qed
  qed
next
  case (9 fmt)
  show ?case by simp
next
  case (10 fmt k v m)
  show ?case
  proof (intro impI allI)
    fix n d acc r
    let ?all = "commaSep (map memberText (marshalMembers fmt ((k, v) # m))) @ CHR ''}'' # r"
    assume c: "canonicalMembers conv fmt ((k, v) # m)"
      and dp: "d + depthm ((k, v) # m) \<le> maxNestingDepth"
      and dist: "distinct (map fst (acc @ (k, v) # m))"
      and n: "2 * length ?all + 1 \<le> n"
    from c have vk: "Valid k" and cv: "canonical conv fmt v"
      and cm: "canonicalMembers conv fmt m" by simp_all
    from dp have dv: "d + depth v \<le> maxNestingDepth" and dm: "d + depthm m \<le> maxNestingDepth"
      by simp_all
    from dist have new: "k \<notin> fst ` set acc"
      and dist': "distinct (map fst ((acc @ [(k, v)]) @ m))" by auto
    from n obtain n' where n': "n = Suc n'" by (cases n) auto
    from Marshal_start[OF cv] have len: "0 < length (Marshal fmt v)" by auto
    show "parseMembers conv n d acc ?all = Some (acc @ (k, v) # m, r)"
    proof (cases "m = []")
      case True
      then have t: "?all = appendString k @ CHR '':'' # Marshal fmt v @ CHR ''}'' # r"
        by (simp add: memberText_def)
      from n n' have f: "2 * length (Marshal fmt v @ CHR ''}'' # r) \<le> n'"
        unfolding t by simp
      from 10(1) cv dv f ends_marks(2)
      have "parseValue conv n' d (Marshal fmt v @ CHR ''}'' # r) = Some (v, CHR ''}'' # r)"
        by blast
      then show ?thesis
        unfolding t
        by (simp add: True n' parseMembers.simps scanKey_appendString[OF vk] closes_same skipWS_start
            closes_other marks_nonspace mapAssign_new[OF new])
    next
      case False
      let ?rest = "commaSep (map memberText (marshalMembers fmt m)) @ CHR ''}'' # r"
      from False have t: "?all = appendString k @ CHR '':'' # Marshal fmt v @ CHR '','' # ?rest"
        by (cases m) (auto simp: commaSep_Cons memberText_def)
      from n n' have f: "2 * length (Marshal fmt v @ CHR '','' # ?rest) \<le> n'"
        unfolding t by simp
      from 10(1) cv dv f ends_marks(3)
      have pv: "parseValue conv n' d (Marshal fmt v @ CHR '','' # ?rest)
          = Some (v, CHR '','' # ?rest)"
        by blast
      from n n' len have f2: "2 * length ?rest + 1 \<le> n'" unfolding t by simp
      from 10(2) cm False dm dist' f2
      have "parseMembers conv n' d (acc @ [(k, v)]) ?rest = Some ((acc @ [(k, v)]) @ m, r)"
        by blast
      with pv show ?thesis
        unfolding t
        by (simp add: n' parseMembers.simps scanKey_appendString[OF vk] closes_same skipWS_start
            marks_nonspace mapAssign_new[OF new])
    qed
  qed
qed

lemma Unmarshal_Marshal:
  assumes "canonical conv fmt x" and "depth x \<le> maxNestingDepth"
  shows "Unmarshal conv (Marshal fmt x) = Some x"
proof -
  have "parseValue conv (2 * length (Marshal fmt x) + 1) 0 (Marshal fmt x @ []) = Some (x, [])"
    by (rule parse_Marshal(1)[rule_format, OF assms(1) _ ends_marks(4)])
      (use assms(2) in simp_all)
  then show ?thesis by (simp add: Unmarshal_def skipWS_def)
qed

text \<open>
  The text of a canonical value is valid UTF-8 and has no white space at its ends.
\<close>

lemma runeLen_prefix:
  assumes "runeLen t \<noteq> 0"
  shows "runeLen t \<le> length t \<and> runeLen (take (runeLen t) t @ v) = runeLen t"
proof (cases t)
  case Nil
  with assms show ?thesis by simp
next
  case (Cons a s)
  show ?thesis
  proof (cases a rule: runeLen_ranges)
    case one
    then show ?thesis by (simp add: Cons)
  next
    case two
    from assms show ?thesis
      unfolding Cons runeLen_two[OF two]
      by (cases s) (auto simp: runeLen_two[OF two] simp del: runeLen.simps split: if_splits)
  next
    case three
    from assms show ?thesis
      unfolding Cons runeLen_three[OF three]
      by (cases s; cases "tl s") (auto simp: runeLen_three[OF three] simp del: runeLen.simps split: if_splits)
  next
    case four
    from assms show ?thesis
      unfolding Cons runeLen_four[OF four]
      by (cases s; cases "tl s"; cases "tl (tl s)")
        (auto simp: runeLen_four[OF four] simp del: runeLen.simps split: if_splits)
  next
    case none
    with assms show ?thesis by (simp only: Cons runeLen_none[OF none])
  qed
qed

lemma Valid_rune_append:
  assumes "runeLen t \<noteq> 0" and "Valid v"
  shows "Valid (take (runeLen t) t @ v)"
proof -
  from runeLen_prefix[OF assms(1), of v]
  have l: "runeLen t \<le> length t" and r: "runeLen (take (runeLen t) t @ v) = runeLen t"
    by simp_all
  from l have "drop (runeLen t) (take (runeLen t) t @ v) = v" by simp
  with r assms show ?thesis by (subst Valid.simps) simp
qed

lemma Valid_append: "Valid a \<Longrightarrow> Valid b \<Longrightarrow> Valid (a @ b)"
proof (induction a rule: Valid.induct)
  case (1 s)
  show ?case
  proof (cases "s = []")
    case True
    with 1 show ?thesis by simp
  next
    case False
    with "1.prems"(1) have rl: "runeLen s \<noteq> 0" and v: "Valid (drop (runeLen s) s)"
      by (subst (asm) Valid.simps, simp split: if_splits)+
    from "1.IH"[OF False rl v "1.prems"(2)] have "Valid (drop (runeLen s) s @ b)" .
    from Valid_rune_append[OF rl this]
    have "Valid ((take (runeLen s) s @ drop (runeLen s) s) @ b)" by (simp only: append_assoc)
    then show ?thesis by (simp only: append_take_drop_id)
  qed
qed

lemma Valid_ascii_append: "list_all (\<lambda>c. byte c < 128) a \<Longrightarrow> Valid b \<Longrightarrow> Valid (a @ b)"
  by (rule Valid_append) (rule Valid_ascii)

lemma hexDigit_ascii: "k < 16 \<Longrightarrow> byte (hexDigit k) < 128"
  by (auto simp: hexDigit_def)

lemma escapeByte_ascii: "byte c < 128 \<Longrightarrow> list_all (\<lambda>c. byte c < 128) (escapeByte c)"
  by (auto simp: escapeByte_def hexDigit_ascii intro!: less_mult_imp_div_less)

lemma Valid_escapeFrom: "Valid s \<Longrightarrow> Valid (escapeFrom s)"
proof (induction s rule: escapeFrom.induct)
  case 1
  show ?case by (simp add: Valid_empty)
next
  case (2 c s)
  show ?case
  proof (cases "byte c < 128")
    case True
    with "2.prems" have "Valid s" by (simp add: Valid_Cons_ascii)
    from "2.IH"(1)[OF True this] have v: "Valid (escapeFrom s)" .
    have "list_all (\<lambda>c. byte c < 128) (if htmlSafe c then [c] else escapeByte c)"
      using True by (simp add: escapeByte_ascii)
    from Valid_ascii_append[OF this v] True show ?thesis by simp
  next
    case high: False
    from Valid_drop[OF "2.prems"] have rl: "runeLen (c # s) \<noteq> 0"
      and v: "Valid (drop (runeLen (c # s) - 1) s)" by simp_all
    show ?thesis
    proof (cases "take 3 (c # s) = [CHR 0xE2, CHR 0x80, CHR 0xA8]")
      case ls: True
      from separator_runeLen[OF ls] v have "Valid (drop 2 s)" by simp
      from "2.IH"(3)[OF high rl ls this] have "Valid (escapeFrom (drop 2 s))" .
      then have "Valid (CHR 0x5C # ''u2028'' @ escapeFrom (drop 2 s))"
        by (simp add: Valid_Cons_ascii)
      with high rl ls show ?thesis by (simp only: escapeFrom.simps if_False if_True simp_thms)
    next
      case nls: False
      show ?thesis
      proof (cases "take 3 (c # s) = [CHR 0xE2, CHR 0x80, CHR 0xA9]")
        case ps: True
        from separator_runeLen[OF ps] v have "Valid (drop 2 s)" by simp
        from "2.IH"(4)[OF high rl nls ps this] have "Valid (escapeFrom (drop 2 s))" .
        then have "Valid (CHR 0x5C # ''u2029'' @ escapeFrom (drop 2 s))"
          by (simp add: Valid_Cons_ascii)
        with high rl nls ps show ?thesis
          by (simp only: escapeFrom.simps if_False if_True simp_thms)
      next
        case nps: False
        from "2.IH"(5)[OF high rl nls nps v]
        have "Valid (escapeFrom (drop (runeLen (c # s) - 1) s))" .
        from Valid_rune_append[OF rl this] high rl nls nps show ?thesis
          by (simp only: escapeFrom.simps if_False simp_thms)
      qed
    qed
  qed
qed

lemma Valid_appendString: "Valid s \<Longrightarrow> Valid (appendString s)"
proof -
  assume "Valid s"
  then have "Valid (escapeFrom s)" by (rule Valid_escapeFrom)
  moreover have "Valid [CHR 0x22]" by (simp add: Valid_Cons_ascii Valid_empty)
  ultimately have "Valid (escapeFrom s @ [CHR 0x22])" by (rule Valid_append)
  then show ?thesis by (simp add: appendString_def Valid_Cons_ascii)
qed

lemma numChar_ascii: "numChar c \<Longrightarrow> byte c < 128 \<and> \<not> asciiSpace c"
  by (auto simp: numChar_def isDigit_def asciiSpace_def)

lemma Valid_Marshal:
  "canonical conv fmt x \<longrightarrow> Valid (Marshal fmt x)"
  "canonicalElems conv fmt xs \<longrightarrow> Valid (commaSep (marshalElems fmt xs))"
  "canonicalMembers conv fmt m \<longrightarrow> Valid (commaSep (map memberText (marshalMembers fmt m)))"
proof (induction fmt x and fmt xs and fmt m rule: Marshal_marshalElems_marshalMembers.induct)
  case (1 fmt m)
  show ?case
  proof
    assume c: "canonical conv fmt (JObject m)"
    then have "sorted_wrt lessString (map fst (marshalMembers fmt m))"
      by (simp add: keys_marshalMembers)
    then have sm: "sortMembers (marshalMembers fmt m) = marshalMembers fmt m"
      by (rule sortMembers_sorted)
    from 1 c have "Valid (commaSep (map memberText (marshalMembers fmt m)))" by simp
    moreover have "Valid ''}''" by (simp add: Valid_Cons_ascii Valid_empty)
    ultimately have "Valid (commaSep (map memberText (marshalMembers fmt m)) @ ''}'')"
      by (rule Valid_append)
    then show "Valid (Marshal fmt (JObject m))" by (simp add: sm Valid_Cons_ascii)
  qed
next
  case (2 fmt xs)
  show ?case
  proof
    assume c: "canonical conv fmt (JArray xs)"
    with 2 have "Valid (commaSep (marshalElems fmt xs))" by simp
    moreover have "Valid '']''" by (simp add: Valid_Cons_ascii Valid_empty)
    ultimately have "Valid (commaSep (marshalElems fmt xs) @ '']'')" by (rule Valid_append)
    then show "Valid (Marshal fmt (JArray xs))" by (simp add: Valid_Cons_ascii)
  qed
next
  case (3 fmt s)
  show ?case by (simp add: Valid_appendString)
next
  case (4 fmt n)
  show ?case
  proof
    assume "canonical conv fmt (JNumber n)"
    then have "scanNumber (fmt n) = Some (fmt n, [])" by simp
    from scanNumber_chars[OF this] have "list_all (\<lambda>c. byte c < 128) (fmt n)"
      by (auto simp: list_all_iff numChar_ascii)
    then show "Valid (Marshal fmt (JNumber n))" by (simp add: Valid_ascii)
  qed
next
  case (5 fmt b)
  show ?case by (simp add: Valid_Cons_ascii Valid_empty)
next
  case (6 fmt)
  show ?case by (simp add: Valid_Cons_ascii Valid_empty)
next
  case (7 fmt)
  show ?case by (simp add: Valid_empty)
next
  case (8 fmt x xs)
  show ?case
  proof
    assume c: "canonicalElems conv fmt (x # xs)"
    with 8 have vx: "Valid (Marshal fmt x)" and vxs: "Valid (commaSep (marshalElems fmt xs))"
      by simp_all
    from vxs have "Valid (CHR '','' # commaSep (marshalElems fmt xs))"
      by (simp add: Valid_Cons_ascii)
    from Valid_append[OF vx this] vx
    show "Valid (commaSep (marshalElems fmt (x # xs)))" by (simp add: commaSep_Cons)
  qed
next
  case (9 fmt)
  show ?case by (simp add: Valid_empty)
next
  case (10 fmt k v m)
  show ?case
  proof
    assume c: "canonicalMembers conv fmt ((k, v) # m)"
    with 10 have vk: "Valid k" and vv: "Valid (Marshal fmt v)"
      and vm: "Valid (commaSep (map memberText (marshalMembers fmt m)))" by simp_all
    from vv have "Valid (CHR '':'' # Marshal fmt v)" by (simp add: Valid_Cons_ascii)
    from Valid_append[OF Valid_appendString[OF vk] this]
    have mt: "Valid (memberText (k, Marshal fmt v))" by (simp add: memberText_def)
    from vm have "Valid (CHR '','' # commaSep (map memberText (marshalMembers fmt m)))"
      by (simp add: Valid_Cons_ascii)
    from Valid_append[OF mt this] mt
    show "Valid (commaSep (map memberText (marshalMembers fmt ((k, v) # m))))"
      by (simp add: commaSep_Cons)
  qed
qed

definition endChar :: "char \<Rightarrow> bool" where
  "endChar c =
     (c = CHR ''}'' \<or> c = CHR '']'' \<or> c = CHR 0x22 \<or> c = CHR ''e'' \<or> c = CHR ''l''
      \<or> isDigit c)"

lemma Marshal_end:
  "canonical conv fmt x \<Longrightarrow> Marshal fmt x \<noteq> [] \<and> endChar (last (Marshal fmt x))"
proof (cases x)
  case (JNumber n)
  assume "canonical conv fmt x"
  with JNumber have "scanNumber (fmt n) = Some (fmt n, [])" by simp
  from scanNumber_chars[OF this] JNumber show ?thesis by (simp add: endChar_def)
qed (auto simp: endChar_def appendString_def)

lemma TrimSpace_Marshal:
  assumes "canonical conv fmt x"
  shows "TrimSpace (Marshal fmt x) = Marshal fmt x"
proof (rule TrimSpace_plain)
  from Marshal_start[OF assms] obtain c t where "Marshal fmt x = c # t" "startChar c" by blast
  then have "byte (hd (Marshal fmt x)) < 128 \<and> \<not> asciiSpace (hd (Marshal fmt x))"
    by (simp add: startChar_plain)
  moreover from Marshal_end[OF assms] have "endChar (last (Marshal fmt x))" by simp
  then have "byte (last (Marshal fmt x)) < 128 \<and> \<not> asciiSpace (last (Marshal fmt x))"
    by (auto simp: endChar_def isDigit_def asciiSpace_def)
  ultimately show "Marshal fmt x = [] \<or>
      (byte (hd (Marshal fmt x)) < 128 \<and> \<not> asciiSpace (hd (Marshal fmt x))
       \<and> byte (last (Marshal fmt x)) < 128 \<and> \<not> asciiSpace (last (Marshal fmt x)))"
    by simp
qed

lemma Decode_Marshal:
  assumes "canonical conv fmt x" and "depth x \<le> maxNestingDepth"
  shows "DecodeBase64Fields conv (JString (EncodeToString (Marshal fmt x)))
    = DecodeBase64Fields conv x"
  using Valid_Marshal(1)[of conv fmt x] assms
  by (simp add: decoder_eval IsBase64_EncodeToString DecodeString_EncodeToString
      TrimSpace_Marshal[OF assms(1)] Unmarshal_Marshal[OF assms])

text \<open>
  A canonical value nested deeper is refused: the parser stops at the first array or
  object that would be open beyond \<open>maxNestingDepth\<close>.
\<close>

lemma parse_deep:
  "canonical conv fmt x \<longrightarrow>
     (\<forall>n d r. d \<le> maxNestingDepth \<longrightarrow> maxNestingDepth < d + depth x \<longrightarrow> ends r
        \<longrightarrow> 2 * length (Marshal fmt x @ r) \<le> n
        \<longrightarrow> parseValue conv n d (Marshal fmt x @ r) = None)"
  "canonicalElems conv fmt xs \<longrightarrow>
     (\<forall>n d acc r. d \<le> maxNestingDepth \<longrightarrow> maxNestingDepth < d + depths xs
        \<longrightarrow> 2 * length (commaSep (marshalElems fmt xs) @ CHR '']'' # r) + 1 \<le> n
        \<longrightarrow> parseElems conv n d acc (commaSep (marshalElems fmt xs) @ CHR '']'' # r) = None)"
  "canonicalMembers conv fmt m \<longrightarrow>
     (\<forall>n d acc r. d \<le> maxNestingDepth \<longrightarrow> maxNestingDepth < d + depthm m
        \<longrightarrow> 2 * length (commaSep (map memberText (marshalMembers fmt m)) @ CHR ''}'' # r) + 1 \<le> n
        \<longrightarrow> parseMembers conv n d acc
              (commaSep (map memberText (marshalMembers fmt m)) @ CHR ''}'' # r)
            = None)"
proof (induction fmt x and fmt xs and fmt m rule: Marshal_marshalElems_marshalMembers.induct)
  case (1 fmt m)
  show ?case
  proof (intro impI allI)
    fix n d r
    assume c: "canonical conv fmt (JObject m)" and dl: "d \<le> maxNestingDepth"
      and dp: "maxNestingDepth < d + depth (JObject m)"
      and n: "2 * length (Marshal fmt (JObject m) @ r) \<le> n"
    from c have srt: "sorted_wrt lessString (map fst m)" and cm: "canonicalMembers conv fmt m"
      by simp_all
    from srt have "sorted_wrt lessString (map fst (marshalMembers fmt m))"
      by (simp add: keys_marshalMembers)
    then have sm: "sortMembers (marshalMembers fmt m) = marshalMembers fmt m"
      by (rule sortMembers_sorted)
    from n obtain n' where n': "n = Suc n'" by (cases n) auto
    show "parseValue conv n d (Marshal fmt (JObject m) @ r) = None"
    proof (cases "d < maxNestingDepth")
      case False
      then show ?thesis by (simp add: n' parseValue.simps skipWS_start marks_nonspace)
    next
      case d: True
      with dp have d': "Suc d \<le> maxNestingDepth" "maxNestingDepth < Suc d + depthm m"
        by simp_all
      then have ne: "m \<noteq> []" by auto
      then obtain k v m' where m: "m = (k, v) # m'" by (cases m) auto
      let ?t = "commaSep (map memberText (marshalMembers fmt m)) @ CHR ''}'' # r"
      have hd: "\<exists>t. ?t = CHR 0x22 # t"
        by (simp add: m commaSep_Cons memberText_def appendString_def)
      then have nc: "\<not> closes (CHR ''}'') ?t"
        by (auto simp: closes_other marks_nonspace)
      from n n' have f: "2 * length ?t + 1 \<le> n'" by (simp add: sm)
      from 1 cm d' f have "parseMembers conv n' (Suc d) [] ?t = None" by blast
      with nc show ?thesis by (simp add: n' parseValue_object[OF d] sm)
    qed
  qed
next
  case (2 fmt xs)
  show ?case
  proof (intro impI allI)
    fix n d r
    assume c: "canonical conv fmt (JArray xs)" and dl: "d \<le> maxNestingDepth"
      and dp: "maxNestingDepth < d + depth (JArray xs)"
      and n: "2 * length (Marshal fmt (JArray xs) @ r) \<le> n"
    from c have ce: "canonicalElems conv fmt xs" by simp
    from n obtain n' where n': "n = Suc n'" by (cases n) auto
    show "parseValue conv n d (Marshal fmt (JArray xs) @ r) = None"
    proof (cases "d < maxNestingDepth")
      case False
      then show ?thesis by (simp add: n' parseValue.simps skipWS_start marks_nonspace)
    next
      case d: True
      with dp have d': "Suc d \<le> maxNestingDepth" "maxNestingDepth < Suc d + depths xs"
        by simp_all
      then have ne: "xs \<noteq> []" by auto
      then obtain x xs' where xs: "xs = x # xs'" by (cases xs) auto
      let ?t = "commaSep (marshalElems fmt xs) @ CHR '']'' # r"
      from ce xs have "canonical conv fmt x" by simp
      from Marshal_start[OF this] obtain c0 t0 where "Marshal fmt x = c0 # t0" "startChar c0"
        by blast
      then have "\<exists>t. ?t = c0 # t" "\<not> isSpaceJSON c0" "c0 \<noteq> CHR '']''"
        by (simp_all add: xs commaSep_Cons startChar_plain)
      then have nc: "\<not> closes (CHR '']'') ?t"
        by (auto simp: closes_other)
      from n n' have f: "2 * length ?t + 1 \<le> n'" by simp
      from 2 ce d' f have "parseElems conv n' (Suc d) [] ?t = None" by blast
      with nc show ?thesis by (simp add: n' parseValue_array[OF d])
    qed
  qed
next
  case (8 fmt x xs)
  show ?case
  proof (intro impI allI)
    fix n d acc r
    let ?all = "commaSep (marshalElems fmt (x # xs)) @ CHR '']'' # r"
    assume c: "canonicalElems conv fmt (x # xs)" and dl: "d \<le> maxNestingDepth"
      and dp: "maxNestingDepth < d + depths (x # xs)"
      and n: "2 * length ?all + 1 \<le> n"
    from c have cx: "canonical conv fmt x" and cxs: "canonicalElems conv fmt xs" by simp_all
    from n obtain n' where n': "n = Suc n'" by (cases n) auto
    from Marshal_start[OF cx] have len: "0 < length (Marshal fmt x)" by auto
    define rest where "rest = (if xs = [] then CHR '']'' # r
      else CHR '','' # commaSep (marshalElems fmt xs) @ CHR '']'' # r)"
    have t: "?all = Marshal fmt x @ rest"
      by (cases xs) (simp_all add: rest_def commaSep_Cons)
    have er: "ends rest" by (simp add: rest_def ends_marks)
    from n n' have f: "2 * length (Marshal fmt x @ rest) \<le> n'" unfolding t by simp
    show "parseElems conv n d acc ?all = None"
    proof (cases "maxNestingDepth < d + depth x")
      case True
      with 8(1) cx dl er f have "parseValue conv n' d (Marshal fmt x @ rest) = None" by blast
      then show ?thesis unfolding t by (simp add: n' parseElems.simps)
    next
      case False
      then have "d + depth x \<le> maxNestingDepth" by simp
      from parse_Marshal(1)[rule_format, OF cx this er f]
      have pv: "parseValue conv n' d (Marshal fmt x @ rest) = Some (x, rest)" .
      from False dp have dxs: "maxNestingDepth < d + depths xs" by (simp add: max_def split: if_splits)
      with dl have ne: "xs \<noteq> []" by auto
      then have rest: "rest = CHR '','' # commaSep (marshalElems fmt xs) @ CHR '']'' # r"
        by (simp add: rest_def)
      from n n' len have f2: "2 * length (commaSep (marshalElems fmt xs) @ CHR '']'' # r) + 1 \<le> n'"
        unfolding t rest by simp
      from 8(2) cxs dl dxs f2
      have "parseElems conv n' d (acc @ [x]) (commaSep (marshalElems fmt xs) @ CHR '']'' # r) = None"
        by blast
      with pv show ?thesis
        unfolding t by (simp add: n' parseElems.simps rest closes_same skipWS_start marks_nonspace)
    qed
  qed
next
  case (10 fmt k v m)
  show ?case
  proof (intro impI allI)
    fix n d acc r
    let ?all = "commaSep (map memberText (marshalMembers fmt ((k, v) # m))) @ CHR ''}'' # r"
    assume c: "canonicalMembers conv fmt ((k, v) # m)" and dl: "d \<le> maxNestingDepth"
      and dp: "maxNestingDepth < d + depthm ((k, v) # m)"
      and n: "2 * length ?all + 1 \<le> n"
    from c have vk: "Valid k" and cv: "canonical conv fmt v"
      and cm: "canonicalMembers conv fmt m" by simp_all
    from n obtain n' where n': "n = Suc n'" by (cases n) auto
    from Marshal_start[OF cv] have len: "0 < length (Marshal fmt v)" by auto
    define rest where "rest = (if m = [] then CHR ''}'' # r
      else CHR '','' # commaSep (map memberText (marshalMembers fmt m)) @ CHR ''}'' # r)"
    have t: "?all = appendString k @ CHR '':'' # Marshal fmt v @ rest"
      by (cases m) (auto simp: rest_def commaSep_Cons memberText_def)
    have er: "ends rest" by (simp add: rest_def ends_marks)
    from n n' have f: "2 * length (Marshal fmt v @ rest) \<le> n'" unfolding t by simp
    show "parseMembers conv n d acc ?all = None"
    proof (cases "maxNestingDepth < d + depth v")
      case True
      with 10(1) cv dl er f have "parseValue conv n' d (Marshal fmt v @ rest) = None" by blast
      then show ?thesis
        unfolding t by (simp add: n' parseMembers.simps scanKey_appendString[OF vk])
    next
      case False
      then have "d + depth v \<le> maxNestingDepth" by simp
      from parse_Marshal(1)[rule_format, OF cv this er f]
      have pv: "parseValue conv n' d (Marshal fmt v @ rest) = Some (v, rest)" .
      from False dp have dm: "maxNestingDepth < d + depthm m" by (simp add: max_def split: if_splits)
      with dl have ne: "m \<noteq> []" by auto
      then have rest: "rest = CHR '','' # commaSep (map memberText (marshalMembers fmt m))
          @ CHR ''}'' # r"
        by (simp add: rest_def)
      from n n' len
      have f2: "2 * length (commaSep (map memberText (marshalMembers fmt m)) @ CHR ''}'' # r) + 1
          \<le> n'"
        unfolding t rest by simp
      from 10(2) cm dl dm f2
      have "parseMembers conv n' d (mapAssign k v acc)
          (commaSep (map memberText (marshalMembers fmt m)) @ CHR ''}'' # r) = None"
        by blast
      with pv show ?thesis
        unfolding t
        by (simp add: n' parseMembers.simps scanKey_appendString[OF vk] rest closes_same
            skipWS_start marks_nonspace)
    qed
  qed
qed (use maxNestingDepth_def in simp_all)

lemma Unmarshal_deep:
  assumes "canonical conv fmt x" and "maxNestingDepth < depth x"
  shows "Unmarshal conv (Marshal fmt x) = None"
proof -
  have "parseValue conv (2 * length (Marshal fmt x) + 1) 0 (Marshal fmt x @ []) = None"
    by (rule parse_deep(1)[rule_format, OF assms(1) _ _ ends_marks(4)])
      (use assms(2) in simp_all)
  then show ?thesis by (simp add: Unmarshal_def)
qed

lemma Decode_deep:
  assumes "canonical conv fmt x" and "maxNestingDepth < depth x"
  shows "DecodeBase64Fields conv (JString (EncodeToString (Marshal fmt x)))
    = JString (Marshal fmt x)"
  using Valid_Marshal(1)[of conv fmt x] assms
  by (simp add: decoder_eval IsBase64_EncodeToString DecodeString_EncodeToString
      TrimSpace_Marshal[OF assms(1)] Unmarshal_deep[OF assms])

text \<open>
  \<open>nested k\<close> is the empty array inside \<open>k\<close> arrays of one element, and
  \<open>nestedText k\<close> the text that \<^verbatim>\<open>Marshal\<close> writes for it. \<^verbatim>\<open>Unmarshal\<close> reads the text
  back while fewer than \<open>maxNestingDepth\<close> arrays enclose the innermost one, and
  refuses it otherwise.
\<close>

fun nested :: "nat \<Rightarrow> 'n json" where
  "nested 0 = JArray []"
| "nested (Suc k) = JArray [nested k]"

definition nestedText :: "nat \<Rightarrow> string" where
  "nestedText k = replicate (Suc k) (CHR ''['') @ replicate (Suc k) (CHR '']'')"

lemma nestedText_0: "nestedText 0 = ''[]''"
  by (simp add: nestedText_def)

lemma nestedText_Suc: "nestedText (Suc k) = CHR ''['' # nestedText k @ '']''"
  by (simp add: nestedText_def replicate_append_same)

lemma Marshal_nested: "Marshal fmt (nested k) = nestedText k"
  by (induction k) (simp_all add: nestedText_0 nestedText_Suc)

lemma length_nestedText: "length (nestedText k) = 2 * k + 2"
  by (simp add: nestedText_def)

lemma hd_nestedText: "nestedText k @ r = CHR ''['' # tl (nestedText k @ r)"
  by (simp add: nestedText_def)

lemma parseValue_nestedText:
  "2 * k + 1 \<le> n \<Longrightarrow>
   parseValue conv n d (nestedText k @ r)
   = (if d + k < maxNestingDepth then Some (nested k, r) else None)"
proof (induction k arbitrary: n d r)
  case 0
  then obtain n' where n: "n = Suc n'" by (cases n) auto
  show ?case
    by (simp add: n nestedText_0 parseValue.simps skipWS_def isSpaceJSON_def closes_def)
next
  case (Suc k)
  then obtain n' where n: "n = Suc (Suc n')" and n': "2 * k + 1 \<le> n'"
    by (cases n; cases "n - 1") auto
  have c: "\<not> closes (CHR '']'') (nestedText k @ CHR '']'' # r)"
    by (subst hd_nestedText) (simp add: closes_def skipWS_def isSpaceJSON_def)
  have e: "parseElems conv (Suc n') (Suc d) [] (nestedText k @ CHR '']'' # r)
      = (if Suc d + k < maxNestingDepth then Some ([nested k], r) else None)"
    by (simp add: parseElems.simps Suc.IH[OF n'] closes_def skipWS_def isSpaceJSON_def)
  show ?case
    by (auto simp: n nestedText_Suc parseValue.simps skipWS_def isSpaceJSON_def c e)
qed

lemma Unmarshal_nestedText:
  "Unmarshal conv (nestedText k) = (if k < maxNestingDepth then Some (nested k) else None)"
  using parseValue_nestedText[of k "2 * length (nestedText k) + 1" conv 0 "[]"]
  by (simp add: Unmarshal_def length_nestedText skipWS_def)

lemma nestedText_ascii: "list_all (\<lambda>c. byte c < 128) (nestedText k)"
  by (auto simp: nestedText_def list_all_iff)

lemma Valid_nestedText: "Valid (nestedText k)"
  by (rule Valid_ascii) (rule nestedText_ascii)

lemma TrimSpace_nestedText: "TrimSpace (nestedText k) = nestedText k"
  by (rule TrimSpace_plain) (simp add: nestedText_def asciiSpace_def last_append)

lemma Decode_nested: "DecodeBase64Fields conv (nested k) = nested k"
  by (induction k) simp_all

lemma canonical_nested: "canonical conv fmt (nested k)"
  by (induction k) simp_all

lemma depth_nested: "depth (nested k) = Suc k"
  by (induction k) simp_all

lemma nested_not_JString: "nested k \<noteq> JString s"
  by (cases k) simp_all

lemma maxNestingDepth_nested: "\<not> (10000::nat) < maxNestingDepth"
  by (simp add: maxNestingDepth_def)

lemma depth_nested_deep: "maxNestingDepth < depth (nested 10000 :: string json)"
  by (simp add: depth_nested maxNestingDepth_def)

section \<open>One layer of Base64 around a JSON document\<close>

text \<open>
  C3, as the code has it. For every JSON value \<open>x\<close> nested no deeper than
  \<^verbatim>\<open>json.Unmarshal\<close> accepts (10000 arrays and objects), if \<open>s\<close> is the Base64 encoding of
  \<^verbatim>\<open>JSONStringify(x)\<close>, the text that \<^verbatim>\<open>json.Marshal\<close> writes for \<open>x\<close>, then
  \<open>Decode s = Decode x\<close>: one layer unwraps, and the result is the decoding of the
  parsed value, not the text. For a JSON value nested deeper, \<^verbatim>\<open>json.Unmarshal\<close> refuses
  the text, and \<open>Decode s\<close> is the text itself, as a string. A JSON value is a
  \<open>canonical\<close> one: its strings are valid UTF-8, its numbers are written and read back
  by the codec, and the members of its objects are listed in the order of their keys.
  One layer unwraps as well for the Base64 encoding of any text \<open>j\<close> that is valid UTF-8
  and that \<^verbatim>\<open>json.Unmarshal\<close> parses to a value \<open>y\<close>: its decoding is \<open>Decode y\<close>.
\<close>

theorem one_layer_unwraps:
  "(canonical conv fmt x \<and> depth x \<le> maxNestingDepth
      \<longrightarrow> DecodeBase64Fields conv (JString (EncodeToString (Marshal fmt x)))
          = DecodeBase64Fields conv x)
   \<and> (canonical conv fmt x \<and> maxNestingDepth < depth x
      \<longrightarrow> DecodeBase64Fields conv (JString (EncodeToString (Marshal fmt x)))
          = JString (Marshal fmt x))
   \<and> (Valid j \<and> Unmarshal conv (TrimSpace j) = Some y
      \<longrightarrow> DecodeBase64Fields conv (JString (EncodeToString j)) = DecodeBase64Fields conv y)"
proof -
  have "DecodeBase64Fields conv (JString (EncodeToString (Marshal fmt x)))
      = DecodeBase64Fields conv x"
    if "canonical conv fmt x" and "depth x \<le> maxNestingDepth"
    using that by (rule Decode_Marshal)
  moreover have "DecodeBase64Fields conv (JString (EncodeToString (Marshal fmt x)))
      = JString (Marshal fmt x)"
    if "canonical conv fmt x" and "maxNestingDepth < depth x"
    using that by (rule Decode_deep)
  moreover have "DecodeBase64Fields conv (JString (EncodeToString j))
      = DecodeBase64Fields conv y"
    if "Valid j" and "Unmarshal conv (TrimSpace j) = Some y"
    using that by (simp add: decoder_eval IsBase64_EncodeToString DecodeString_EncodeToString)
  ultimately show ?thesis by blast
qed




lemma doc_EncodeToString: \<open>EncodeToString ''{"a":1}'' = ''eyJhIjoxfQ==''\<close>
  by (simp add: encodeStd_def char_of_eq_iff take_bit_eq_mod)



lemma wrapped_DecodeString:
  \<open>DecodeString ''eyJrZXkiOiJ2YWx1ZSJ9Cg=='' = Some ''{"key":"value"}\<newline>''\<close>
  by (simp add: base64_eval)

lemma wrapped_Valid: \<open>Valid ''{"key":"value"}\<newline>''\<close>
  by (simp add: utf8_eval)

lemma wrapped_TrimSpace: \<open>TrimSpace ''{"key":"value"}\<newline>'' = ''{"key":"value"}''\<close>
  by (simp add: trim_eval)

lemma wrapped_Unmarshal:
  \<open>Unmarshal asLiteral ''{"key":"value"}'' = Some (JObject [(''key'', JString ''value'')])\<close>
  by (simp add: json_eval)

lemma wrapped_EncodeToString:
  \<open>EncodeToString ''{"key":"value"}\<newline>'' = ''eyJrZXkiOiJ2YWx1ZSJ9Cg==''\<close>
  by (simp add: encodeStd_def char_of_eq_iff take_bit_eq_mod)

lemma value_not_Base64: "\<not> IsBase64 ''value''"
  by (simp add: IsBase64_def)

lemma wrapped_inner:
  "DecodeBase64Fields conv (JObject [(''key'', JString ''value'')])
   = JObject [(''key'', JString ''value'')]"
  by (simp add: decoder_eval value_not_Base64)

lemma doc_inner:
  "DecodeBase64Fields conv (JObject [(''a'', JNumber n)]) = JObject [(''a'', JNumber n)]"
  by simp

lemma doc_canonical:
  "canonical asLiteral asToken (JObject [(''a'', JNumber ''1'')])"
  by (simp add: utf8_eval asLiteral_def asToken_def scanNumber_def scanInt_def scanFrac_def
      scanExp_def isDigit_def)

lemma doc_depth: "depth (JObject [(''a'', JNumber ''1'')] :: string json) \<le> maxNestingDepth"
  by (simp add: maxNestingDepth_def)

lemma doc_Marshal: \<open>Marshal asToken (JObject [(''a'', JNumber ''1'')]) = ''{"a":1}''\<close>
  by (simp add: sortMembers_def memberText_def appendString_def htmlSafe_def asToken_def)

theorem one_layer_unwraps_witness:
  \<open>canonical asLiteral asToken (JObject [(''a'', JNumber ''1'')])
   \<and> depth (JObject [(''a'', JNumber ''1'')] :: string json) \<le> maxNestingDepth
   \<and> EncodeToString (Marshal asToken (JObject [(''a'', JNumber ''1'')])) = ''eyJhIjoxfQ==''
   \<and> DecodeBase64Fields asLiteral (JString ''eyJhIjoxfQ=='') = JObject [(''a'', JNumber ''1'')]
   \<and> canonical asLiteral asToken (nested 10000)
   \<and> maxNestingDepth < depth (nested 10000 :: string json)
   \<and> DecodeBase64Fields asLiteral (JString (EncodeToString (Marshal asToken (nested 10000))))
       = JString (Marshal asToken (nested 10000 :: string json))
   \<and> Valid ''{"key":"value"}\<newline>''
   \<and> Unmarshal asLiteral (TrimSpace ''{"key":"value"}\<newline>'')
       = Some (JObject [(''key'', JString ''value'')])
   \<and> DecodeBase64Fields asLiteral (JString ''eyJrZXkiOiJ2YWx1ZSJ9Cg=='')
       = JObject [(''key'', JString ''value'')]\<close>
proof -
  have u: \<open>Unmarshal asLiteral (TrimSpace ''{"key":"value"}\<newline>'')
       = Some (JObject [(''key'', JString ''value'')])\<close>
    by (simp only: wrapped_TrimSpace wrapped_Unmarshal)
  note a = one_layer_unwraps [where conv = asLiteral and fmt = asToken
      and x = "JObject [(''a'', JNumber ''1'')]", THEN conjunct1, rule_format,
      OF conjI [OF doc_canonical doc_depth]]
  note b = one_layer_unwraps [where conv = asLiteral and fmt = asToken
      and x = "nested 10000", THEN conjunct2, THEN conjunct1, rule_format,
      OF conjI [OF canonical_nested depth_nested_deep]]
  note c = one_layer_unwraps [where conv = asLiteral and j = \<open>''{"key":"value"}\<newline>''\<close>,
      THEN conjunct2, THEN conjunct2, rule_format, OF conjI [OF wrapped_Valid u]]
  have e: \<open>EncodeToString (Marshal asToken (JObject [(''a'', JNumber ''1'')])) = ''eyJhIjoxfQ==''\<close>
    by (simp only: doc_Marshal doc_EncodeToString)
  from a have a': \<open>DecodeBase64Fields asLiteral (JString ''eyJhIjoxfQ=='')
      = JObject [(''a'', JNumber ''1'')]\<close>
    by (simp only: e doc_inner)
  from c have c': \<open>DecodeBase64Fields asLiteral (JString ''eyJrZXkiOiJ2YWx1ZSJ9Cg=='')
      = JObject [(''key'', JString ''value'')]\<close>
    by (simp only: wrapped_EncodeToString wrapped_inner)
  from doc_canonical doc_depth e a' canonical_nested depth_nested_deep b wrapped_Valid u c'
  show ?thesis by (intro conjI)
qed

text \<open>
  C3 as stated fails for a value nested deeper than \<^verbatim>\<open>json.Unmarshal\<close> accepts. For the
  empty array inside 10000 arrays of one element, \<^verbatim>\<open>json.Marshal\<close> writes 10001 opening
  and 10001 closing brackets; \<^verbatim>\<open>json.Unmarshal\<close> refuses that text, so \<open>Decode\<close> of its
  Base64 encoding is the text as a string, and \<open>Decode\<close> of the value is the value.
\<close>

theorem deep_nesting_counterexample:
  "Marshal asToken (nested 10000 :: string json) = nestedText 10000
   \<and> Unmarshal asLiteral (nestedText 10000) = None
   \<and> DecodeBase64Fields asLiteral
        (JString (EncodeToString (Marshal asToken (nested 10000 :: string json))))
       = JString (nestedText 10000)
   \<and> DecodeBase64Fields asLiteral (nested 10000) = nested 10000
   \<and> DecodeBase64Fields asLiteral
        (JString (EncodeToString (Marshal asToken (nested 10000 :: string json))))
       \<noteq> DecodeBase64Fields asLiteral (nested 10000)"
proof -
  have u: "Unmarshal asLiteral (nestedText 10000) = None"
    by (simp only: Unmarshal_nestedText maxNestingDepth_nested if_False)
  have r: "DecodeBase64Fields asLiteral (JString (EncodeToString (nestedText 10000)))
      = JString (nestedText 10000)"
    by (simp add: decoder_eval IsBase64_EncodeToString DecodeString_EncodeToString
        Valid_nestedText TrimSpace_nestedText u)
  have n: "JString (nestedText 10000) \<noteq> (nested 10000 :: string json)"
    by (rule not_sym) (rule nested_not_JString)
  from u r n show ?thesis by (simp only: Marshal_nested Decode_nested simp_thms)
qed

section \<open>Several layers of Base64\<close>







section \<open>Termination\<close>

text \<open>
  C9. \<open>Decode\<close> terminates on every input: the relation between a call of one of the
  four functions and the calls it makes is well-founded, and every call is in the
  domain of the functions. A Base64 string decodes to at most three quarters of its
  length, so to fewer bytes when it is not empty, and every string of the value parsed
  from the decoded text is shorter than the Base64 string, however many layers there
  are.
\<close>

theorem decoder_recursion_well_founded:
  "wfP (DecodeBase64String_DecodeBase64InMap_DecodeBase64InSlice_DecodeBase64Fields_rel
      :: ((string \<Rightarrow> 'n option) \<times> string
           + (string \<Rightarrow> 'n option) \<times> (string \<times> 'n json) list \<times> (string \<times> 'n json) list)
         + ((string \<Rightarrow> 'n option) \<times> 'n json list + (string \<Rightarrow> 'n option) \<times> 'n json)
         \<Rightarrow> _ \<Rightarrow> bool)
   \<and> DecodeBase64String_DecodeBase64InMap_DecodeBase64InSlice_DecodeBase64Fields_dom
        (Inr (Inr (conv, v)))
   \<and> (DecodeString s = Some d
        \<longrightarrow> 4 * length d \<le> 3 * length s \<and> (s \<noteq> [] \<longrightarrow> length d < length s))
   \<and> (DecodeString s = Some d \<and> Valid d \<and> Unmarshal conv (TrimSpace d) = Some x
        \<longrightarrow> maxStr x < maxStr (JString s :: 'n json))"
proof -
  have "DecodeBase64String_DecodeBase64InMap_DecodeBase64InSlice_DecodeBase64Fields_dom
      (Inr (Inr (conv, v)))"
    using decoder_calls_wf unfolding wfp_iff_accp by (rule spec)
  moreover have "length d < length s" if "DecodeString s = Some d" and "s \<noteq> []"
    using DecodeString_length[OF that(1)] that(2) by (cases s) simp_all
  ultimately show ?thesis
    using decoder_calls_wf DecodeString_length parsed_strings_shorter by blast
qed

theorem decoder_recursion_well_founded_witness:
  \<open>DecodeString ''eyJrZXkiOiJ2YWx1ZSJ9Cg=='' = Some ''{"key":"value"}\<newline>''
   \<and> Valid ''{"key":"value"}\<newline>''
   \<and> Unmarshal asLiteral (TrimSpace ''{"key":"value"}\<newline>'')
       = Some (JObject [(''key'', JString ''value'')])
   \<and> 4 * length ''{"key":"value"}\<newline>'' \<le> 3 * length ''eyJrZXkiOiJ2YWx1ZSJ9Cg==''
   \<and> length ''{"key":"value"}\<newline>'' < length ''eyJrZXkiOiJ2YWx1ZSJ9Cg==''
   \<and> maxStr (JObject [(''key'', JString ''value'')] :: string json)
       < maxStr (JString ''eyJrZXkiOiJ2YWx1ZSJ9Cg=='' :: string json)\<close>
proof -
  have u: \<open>Unmarshal asLiteral (TrimSpace ''{"key":"value"}\<newline>'')
       = Some (JObject [(''key'', JString ''value'')])\<close>
    by (simp only: wrapped_TrimSpace wrapped_Unmarshal)
  have n: "''eyJrZXkiOiJ2YWx1ZSJ9Cg=='' \<noteq> []" by simp
  note t = decoder_recursion_well_founded
    [where s = "''eyJrZXkiOiJ2YWx1ZSJ9Cg==''" and d = \<open>''{"key":"value"}\<newline>''\<close>
      and conv = asLiteral and x = "JObject [(''key'', JString ''value'')]" and v = JNull]
  note a = t [THEN conjunct2, THEN conjunct2, THEN conjunct1, rule_format,
      OF wrapped_DecodeString]
  note b = t [THEN conjunct2, THEN conjunct2, THEN conjunct2, rule_format,
      OF conjI [OF wrapped_DecodeString conjI [OF wrapped_Valid u]]]
  from a [THEN conjunct1] a [THEN conjunct2, rule_format, OF n] b
    wrapped_DecodeString wrapped_Valid u
  show ?thesis by (intro conjI) assumption+
qed

section \<open>No error channel\<close>

text \<open>
  C7, as the code has it. \<open>Decode\<close> is total and has no error channel: every call
  terminates, its result is a JSON value, and each failure of a library call stands for
  a value. A string that is not a Base64 candidate, or whose decoded bytes are not valid
  UTF-8, is returned as it is. A candidate whose decoded text is valid UTF-8 and does
  not parse as JSON is replaced by the trimmed decoded text; one whose text parses is
  replaced by \<open>Decode\<close> of the parsed value.
\<close>

theorem decode_total_by_cases:
  "DecodeBase64String_DecodeBase64InMap_DecodeBase64InSlice_DecodeBase64Fields_dom
      (Inr (Inr (conv, v)))
   \<and> (\<not> IsBase64 s \<longrightarrow> DecodeBase64Fields conv (JString s) = JString s)
   \<and> (IsBase64 s \<longrightarrow>
        (\<exists>d. DecodeString s = Some d
           \<and> (\<not> Valid d \<longrightarrow> DecodeBase64Fields conv (JString s) = JString s)
           \<and> (Valid d \<and> Unmarshal conv (TrimSpace d) = None
                \<longrightarrow> DecodeBase64Fields conv (JString s) = JString (TrimSpace d))
           \<and> (\<forall>x. Valid d \<and> Unmarshal conv (TrimSpace d) = Some x
                \<longrightarrow> DecodeBase64Fields conv (JString s) = DecodeBase64Fields conv x)))"
proof -
  have "DecodeBase64String_DecodeBase64InMap_DecodeBase64InSlice_DecodeBase64Fields_dom
      (Inr (Inr (conv, v)))"
    using decoder_calls_wf unfolding wfp_iff_accp by (rule spec)
  moreover have "IsBase64 s \<Longrightarrow> \<exists>d. DecodeString s = Some d"
    by (auto simp: IsBase64_def split: if_splits)
  ultimately show ?thesis
    by (auto simp: decoder_eval)
qed

lemma abc_not_Base64: "\<not> IsBase64 ''abc''"
  by (simp add: IsBase64_def)

theorem decode_total_by_cases_witness:
  "\<not> IsBase64 ''abc'' \<and> DecodeBase64Fields asLiteral (JString ''abc'') = JString ''abc''"
  using decode_total_by_cases [of asLiteral "JString ''abc''" "''abc''",
      THEN conjunct2, THEN conjunct1, rule_format, OF abc_not_Base64] abc_not_Base64
  by (intro conjI) assumption+

lemma hello_DecodeString: "DecodeString ''SGVsbG8gV29ybGQ='' = Some ''Hello World''"
  by (simp add: base64_eval)

lemma hello_Valid: "Valid ''Hello World''"
  by (simp add: utf8_eval)

lemma hello_TrimSpace: "TrimSpace ''Hello World'' = ''Hello World''"
  by (simp add: trim_eval)

text \<open>
  C7 as stated fails where it says that an unparseable candidate is passed through
  unchanged: \<^verbatim>\<open>SGVsbG8gV29ybGQ=\<close> is a Base64 candidate, its decoded text
  \<^verbatim>\<open>Hello World\<close> is not JSON, and \<open>Decode\<close> returns the decoded text.
\<close>

theorem unparseable_candidate_counterexample:
  "IsBase64 ''SGVsbG8gV29ybGQ=''
   \<and> DecodeString ''SGVsbG8gV29ybGQ='' = Some ''Hello World''
   \<and> Valid ''Hello World''
   \<and> \<not> IsValidJSON asLiteral (TrimSpace ''Hello World'')
   \<and> DecodeBase64Fields asLiteral (JString ''SGVsbG8gV29ybGQ='') = JString ''Hello World''
   \<and> DecodeBase64Fields asLiteral (JString ''SGVsbG8gV29ybGQ='') \<noteq> JString ''SGVsbG8gV29ybGQ=''"
proof -
  have c: "IsBase64 ''SGVsbG8gV29ybGQ=''" by (simp add: IsBase64_def hello_DecodeString)
  have r: "DecodeBase64Fields asLiteral (JString ''SGVsbG8gV29ybGQ='') = JString ''Hello World''"
    by (simp add: decoder_eval c hello_DecodeString hello_Valid hello_TrimSpace hello_not_JSON)
  from c r show ?thesis
    by (simp add: hello_DecodeString hello_Valid hello_TrimSpace hello_not_JSON IsValidJSON_def)
qed

section \<open>Shape of the result\<close>

text \<open>
  \<open>uniqueKeys x\<close>: in every object of \<open>x\<close> each key stands once, as in a Go map.
  \<open>sameShape x y\<close>: \<open>y\<close> has the objects and arrays of \<open>x\<close>, with the same keys in the
  same order and the same number of elements, and the numbers, booleans and nulls of
  \<open>x\<close>; where \<open>x\<close> has a string, \<open>y\<close> may have any value.
\<close>

fun uniqueKeys :: "'n json \<Rightarrow> bool"
  and uniqueElems :: "'n json list \<Rightarrow> bool"
  and uniqueMembers :: "(string \<times> 'n json) list \<Rightarrow> bool"
where
  "uniqueKeys (JObject m) = (distinct (map fst m) \<and> uniqueMembers m)"
| "uniqueKeys (JArray xs) = uniqueElems xs"
| "uniqueKeys (JString s) = True"
| "uniqueKeys (JNumber n) = True"
| "uniqueKeys (JBool b) = True"
| "uniqueKeys JNull = True"
| "uniqueElems [] = True"
| "uniqueElems (x # xs) = (uniqueKeys x \<and> uniqueElems xs)"
| "uniqueMembers [] = True"
| "uniqueMembers ((k, v) # m) = (uniqueKeys v \<and> uniqueMembers m)"

fun sameShape :: "'n json \<Rightarrow> 'n json \<Rightarrow> bool"
  and sameElems :: "'n json list \<Rightarrow> 'n json list \<Rightarrow> bool"
  and sameMembers :: "(string \<times> 'n json) list \<Rightarrow> (string \<times> 'n json) list \<Rightarrow> bool"
where
  "sameShape (JObject m) y = (case y of JObject m' \<Rightarrow> sameMembers m m' | _ \<Rightarrow> False)"
| "sameShape (JArray xs) y = (case y of JArray ys \<Rightarrow> sameElems xs ys | _ \<Rightarrow> False)"
| "sameShape (JString s) y = True"
| "sameShape (JNumber n) y = (y = JNumber n)"
| "sameShape (JBool b) y = (y = JBool b)"
| "sameShape JNull y = (y = JNull)"
| "sameElems [] ys = (ys = [])"
| "sameElems (x # xs) ys =
     (case ys of [] \<Rightarrow> False | y # ys' \<Rightarrow> sameShape x y \<and> sameElems xs ys')"
| "sameMembers [] m' = (m' = [])"
| "sameMembers ((k, v) # m) m' =
     (case m' of
        [] \<Rightarrow> False
      | (k', v') # m'' \<Rightarrow> k' = k \<and> sameShape v v' \<and> sameMembers m m'')"

text \<open>
  Every object that \<^verbatim>\<open>Unmarshal\<close> or the decoder builds holds each key once: both
  build it by assignments to a map.
\<close>

lemma keys_mapAssign:
  "map fst (mapAssign k v m) = (if k \<in> set (map fst m) then map fst m else map fst m @ [k])"
  by (induction m) force+

lemma distinct_mapAssign: "distinct (map fst m) \<Longrightarrow> distinct (map fst (mapAssign k v m))"
  by (simp add: keys_mapAssign)

lemma uniqueMembers_mapAssign:
  "uniqueKeys v \<Longrightarrow> uniqueMembers m \<Longrightarrow> uniqueMembers (mapAssign k v m)"
  by (induction m) auto

lemma uniqueElems_append: "uniqueElems (xs @ ys) \<longleftrightarrow> uniqueElems xs \<and> uniqueElems ys"
  by (induction xs) auto

lemma parse_uniqueKeys:
  "(\<forall>d s v r. parseValue conv n d s = Some (v, r) \<longrightarrow> uniqueKeys v)
   \<and> (\<forall>d acc s vs r. parseElems conv n d acc s = Some (vs, r) \<longrightarrow> uniqueElems acc
        \<longrightarrow> uniqueElems vs)
   \<and> (\<forall>d acc s m r. parseMembers conv n d acc s = Some (m, r)
        \<longrightarrow> distinct (map fst acc) \<and> uniqueMembers acc
        \<longrightarrow> distinct (map fst m) \<and> uniqueMembers m)"
proof (induction n)
  case 0
  show ?case by (simp add: parseValue.simps parseElems.simps parseMembers.simps)
next
  case (Suc n)
  note IHV = Suc [THEN conjunct1, rule_format]
  note IHE = Suc [THEN conjunct2, THEN conjunct1, rule_format]
  note IHM = Suc [THEN conjunct2, THEN conjunct2, rule_format]
  have S: "uniqueKeys v" if "parseScalar conv c r0 = Some (v, r)" for c r0 v r
    using that by (auto simp: parseScalar_def scanLiteral_def split: if_splits option.splits)
  have V: "uniqueKeys v" if "parseValue conv (Suc n) d s = Some (v, r)" for d s v r
  proof -
    from that obtain c r0 where ws: "skipWS s = c # r0"
      by (cases "skipWS s") (auto simp: parseValue.simps)
    consider (obj) "c = CHR ''{''" | (arr) "c \<noteq> CHR ''{''" "c = CHR ''[''"
      | (scalar) "c \<noteq> CHR ''{''" "c \<noteq> CHR ''[''" by blast
    then show ?thesis
    proof cases
      case obj
      show ?thesis
      proof (cases "closes (CHR ''}'') r0")
        case True
        with that ws obj have "v = JObject []"
          by (auto simp: parseValue.simps split: if_splits)
        then show ?thesis by simp
      next
        case False
        with that ws obj obtain m where "parseMembers conv n (Suc d) [] r0 = Some (m, r)"
          "v = JObject m" by (auto simp: parseValue.simps split: if_splits)
        with IHM[of "Suc d" "[]" r0 m r] show ?thesis by simp
      qed
    next
      case arr
      show ?thesis
      proof (cases "closes (CHR '']'') r0")
        case True
        with that ws arr have "v = JArray []"
          by (auto simp: parseValue.simps split: if_splits)
        then show ?thesis by simp
      next
        case False
        with that ws arr obtain xs where "parseElems conv n (Suc d) [] r0 = Some (xs, r)"
          "v = JArray xs" by (auto simp: parseValue.simps split: if_splits)
        with IHE[of "Suc d" "[]" r0 xs r] show ?thesis by simp
      qed
    next
      case scalar
      with that ws have "parseScalar conv c r0 = Some (v, r)" by (simp add: parseValue.simps)
      then show ?thesis by (rule S)
    qed
  qed
  have E: "uniqueElems vs"
    if p: "parseElems conv (Suc n) d acc s = Some (vs, r)" and a: "uniqueElems acc"
    for d acc s vs r
  proof -
    from p obtain v r0 where pv: "parseValue conv n d s = Some (v, r0)"
      by (auto simp: parseElems.simps split: option.splits)
    from IHV[OF pv] a have u: "uniqueElems (acc @ [v])" by (simp add: uniqueElems_append)
    show ?thesis
    proof (cases "closes (CHR '','') r0")
      case True
      with p pv have "parseElems conv n d (acc @ [v]) (drop 1 (skipWS r0)) = Some (vs, r)"
        by (simp add: parseElems.simps)
      from IHE[OF this u] show ?thesis .
    next
      case False
      with p pv have "vs = acc @ [v]" by (auto simp: parseElems.simps split: if_splits)
      with u show ?thesis by simp
    qed
  qed
  have M: "distinct (map fst m) \<and> uniqueMembers m"
    if p: "parseMembers conv (Suc n) d acc s = Some (m, r)"
      and a: "distinct (map fst acc) \<and> uniqueMembers acc"
    for d acc s m r
  proof -
    from p obtain k r1 where sk: "scanKey s = Some (k, r1)"
      by (auto simp: parseMembers.simps split: option.splits)
    from p sk obtain v r0 where pv: "parseValue conv n d r1 = Some (v, r0)"
      by (auto simp: parseMembers.simps split: option.splits)
    from IHV[OF pv] a
    have u: "distinct (map fst (mapAssign k v acc)) \<and> uniqueMembers (mapAssign k v acc)"
      by (simp add: distinct_mapAssign uniqueMembers_mapAssign)
    show ?thesis
    proof (cases "closes (CHR '','') r0")
      case True
      with p sk pv
      have "parseMembers conv n d (mapAssign k v acc) (drop 1 (skipWS r0)) = Some (m, r)"
        by (simp add: parseMembers.simps)
      from IHM[OF this u] show ?thesis .
    next
      case False
      with p sk pv have "m = mapAssign k v acc"
        by (auto simp: parseMembers.simps split: if_splits)
      with u show ?thesis by simp
    qed
  qed
  from V E M show ?case by blast
qed

lemma Unmarshal_uniqueKeys: "Unmarshal conv s = Some v \<Longrightarrow> uniqueKeys v"
  using parse_uniqueKeys[of conv "2 * length s + 1", THEN conjunct1, rule_format, of 0 s v]
  by (auto simp: Unmarshal_def split: option.splits if_splits)

lemma decoded_uniqueKeys:
  "uniqueKeys (DecodeBase64String conv s)"
  "distinct (map fst result) \<and> uniqueMembers result
     \<Longrightarrow> distinct (map fst (DecodeBase64InMap conv result m))
         \<and> uniqueMembers (DecodeBase64InMap conv result m)"
  "uniqueElems (DecodeBase64InSlice conv xs)"
  "uniqueKeys (DecodeBase64Fields conv x)"
proof (induction conv s and conv result m and conv xs and conv x
    rule: DecodeBase64String_DecodeBase64InMap_DecodeBase64InSlice_DecodeBase64Fields.induct)
  case (1 conv s)
  then show ?case
    by (auto simp: DecodeBase64String.simps IsValidJSON_def Let_def split: option.splits)
next
  case (3 conv result key val m)
  then show ?case by (simp add: distinct_mapAssign uniqueMembers_mapAssign)
qed simp_all

lemma DecodeBase64InSlice_map:
  "DecodeBase64InSlice conv xs = map (DecodeBase64Fields conv) xs"
  by (induction xs) simp_all

lemma DecodeBase64InMap_map:
  "distinct (map fst (result @ m))
   \<Longrightarrow> DecodeBase64InMap conv result m
       = result @ map (\<lambda>(k, v). (k, DecodeBase64Fields conv v)) m"
proof (induction m arbitrary: result)
  case Nil
  show ?case by simp
next
  case (Cons kv m)
  obtain k v where kv: "kv = (k, v)" by (cases kv)
  from Cons.prems kv have new: "k \<notin> fst ` set result" by auto
  from Cons.prems kv
  have "distinct (map fst ((result @ [(k, DecodeBase64Fields conv v)]) @ m))" by auto
  from Cons.IH[OF this] new kv show ?case by (simp add: mapAssign_new)
qed

lemma sameShape_decoded:
  "uniqueKeys x \<Longrightarrow> sameShape x (DecodeBase64Fields conv x)"
  "uniqueElems xs \<Longrightarrow> sameElems xs (map (DecodeBase64Fields conv) xs)"
  "uniqueMembers m \<Longrightarrow> sameMembers m (map (\<lambda>(k, v). (k, DecodeBase64Fields conv v)) m)"
proof (induction x and xs and m rule: uniqueKeys_uniqueElems_uniqueMembers.induct)
  case (1 m)
  then show ?case by (simp add: DecodeBase64InMap_map)
next
  case (2 xs)
  then show ?case by (simp add: DecodeBase64InSlice_map)
qed simp_all

text \<open>
  C4. The result of \<open>Decode\<close> has the shape of its input at every object and array:
  the same keys in the same order, the same number of elements in the same order,
  each member and element being \<open>Decode\<close> of the one it stands for; only string leaves
  may change their value or their type.
\<close>

theorem shape_preserved:
  "(uniqueKeys x \<longrightarrow> sameShape x (DecodeBase64Fields conv x))
   \<and> DecodeBase64Fields conv (JArray xs) = JArray (map (DecodeBase64Fields conv) xs)
   \<and> (distinct (map fst m) \<longrightarrow>
        DecodeBase64Fields conv (JObject m)
          = JObject (map (\<lambda>(k, v). (k, DecodeBase64Fields conv v)) m))"
  by (simp add: sameShape_decoded DecodeBase64InSlice_map DecodeBase64InMap_map)

lemma scenario_keys:
  "uniqueKeys (JObject [(''message'', JString ''SGVsbG8gV29ybGQ=''), (''number'', JNumber ''42'')])"
  by simp

theorem shape_preserved_witness:
  "uniqueKeys (JObject [(''message'', JString ''SGVsbG8gV29ybGQ=''), (''number'', JNumber ''42'')])
   \<and> sameShape
        (JObject [(''message'', JString ''SGVsbG8gV29ybGQ=''), (''number'', JNumber ''42'')])
        (JObject [(''message'', JString ''Hello World''), (''number'', JNumber ''42'')])
   \<and> DecodeBase64Fields asLiteral
        (JObject [(''message'', JString ''SGVsbG8gV29ybGQ=''), (''number'', JNumber ''42'')])
       = JObject [(''message'', JString ''Hello World''), (''number'', JNumber ''42'')]"
proof -
  let ?x = "JObject [(''message'', JString ''SGVsbG8gV29ybGQ=''), (''number'', JNumber ''42'')]"
  have c: "IsBase64 ''SGVsbG8gV29ybGQ=''" by (simp add: IsBase64_def hello_DecodeString)
  have r: "DecodeBase64Fields asLiteral ?x
      = JObject [(''message'', JString ''Hello World''), (''number'', JNumber ''42'')]"
    by (simp add: decoder_eval c hello_DecodeString hello_Valid hello_TrimSpace hello_not_JSON)
  from shape_preserved [of ?x asLiteral "[]" "[]", THEN conjunct1, rule_format, OF scenario_keys]
  have "sameShape ?x (DecodeBase64Fields asLiteral ?x)" .
  with r scenario_keys show ?thesis by (simp only: simp_thms)
qed

section \<open>Base64 candidates\<close>

text \<open>
  The candidate test in the words of the specification: the length is a multiple of 4
  and the string is made of characters of the alphabet \<^verbatim>\<open>A-Z a-z 0-9 + /\<close>, followed by
  no padding, one \<^verbatim>\<open>=\<close> or two; any other character and any other padding is refused.
\<close>

definition stdAlphabet :: "char \<Rightarrow> bool" where
  "stdAlphabet c =
     ((65 \<le> byte c \<and> byte c \<le> 90) \<or> (97 \<le> byte c \<and> byte c \<le> 122)
      \<or> (48 \<le> byte c \<and> byte c \<le> 57) \<or> c = CHR ''+'' \<or> c = CHR ''/'')"

definition wellFormedFrom :: "nat \<Rightarrow> string \<Rightarrow> bool" where
  "wellFormedFrom j t =
     (let body = takeWhile (\<lambda>c. c \<noteq> CHR ''='') t;
          pad = dropWhile (\<lambda>c. c \<noteq> CHR ''='') t
      in (j + length t) mod 4 = 0 \<and> list_all stdAlphabet body
         \<and> (pad = [] \<or> pad = ''='' \<or> pad = ''==''))"

definition strictBase64 :: "string \<Rightarrow> bool" where
  "strictBase64 s = wellFormedFrom 0 s"

lemma stdAlphabet_decodeMap: "stdAlphabet c \<longleftrightarrow> decodeMap c \<noteq> None"
proof -
  have "byte (CHR ''+'') = 43" "byte (CHR ''/'') = 47" by simp_all
  then have "c = CHR ''+'' \<longleftrightarrow> byte c = 43" "c = CHR ''/'' \<longleftrightarrow> byte c = 47"
    by (metis of_char_eq_iff)+
  then show ?thesis by (auto simp: stdAlphabet_def decodeMap_def Let_def)
qed

lemma dropWhile_Nil_filter: "dropWhile P xs = [] \<longleftrightarrow> filter (\<lambda>x. \<not> P x) xs = []"
  by (induction xs) auto

lemma filter_dropWhile: "filter (\<lambda>x. \<not> P x) (dropWhile P xs) = filter (\<lambda>x. \<not> P x) xs"
  by (induction xs) auto

lemma dropWhile_Cons_filter:
  "dropWhile P xs = y # ys \<Longrightarrow> filter (\<lambda>x. \<not> P x) xs = y # filter (\<lambda>x. \<not> P x) ys"
  using filter_dropWhile[of P xs] by (auto dest: dropWhile_eq_Cons_conv[THEN iffD1])

lemma pad_newline: "decodeMap (CHR ''='') = None" "\<not> isNewline (CHR ''='')"
  by (simp_all add: decodeMap_def isNewline_def)

lemma two_pads:
  "(case dropWhile isNewline src of
      [] \<Rightarrow> None
    | c' # src' \<Rightarrow>
        if c' \<noteq> CHR ''='' then None
        else if dropWhile isNewline src' \<noteq> [] then None
        else Some out) \<noteq> None
   \<longleftrightarrow> filter (\<lambda>c. \<not> isNewline c) src = ''=''"
proof (cases "dropWhile isNewline src")
  case Nil
  then have "filter (\<lambda>c. \<not> isNewline c) src = []" by (simp only: dropWhile_Nil_filter)
  then show ?thesis by (simp add: Nil)
next
  case (Cons c' src')
  have f: "filter (\<lambda>c. \<not> isNewline c) src = c' # filter (\<lambda>c. \<not> isNewline c) src'"
    by (rule dropWhile_Cons_filter[OF Cons])
  have e: "dropWhile isNewline src' = [] \<longleftrightarrow> filter (\<lambda>c. \<not> isNewline c) src' = []"
    by (rule dropWhile_Nil_filter)
  show ?thesis unfolding Cons f by (simp add: e del: filter_empty_conv dropWhile_eq_Nil_conv)
qed

lemma decodeLoop_wellFormed:
  "length dbuf \<le> 3 \<Longrightarrow>
   decodeLoop dbuf s \<noteq> None
     \<longleftrightarrow> wellFormedFrom (length dbuf) (filter (\<lambda>c. \<not> isNewline c) s)"
proof (induction dbuf s rule: decodeLoop.induct)
  case (1 dbuf)
  then show ?case by (auto simp: wellFormedFrom_def)
next
  case (2 dbuf c src)
  let ?t = "filter (\<lambda>c. \<not> isNewline c) src"
  show ?case
  proof (cases "decodeMap c")
    case (Some v)
    then have a: "stdAlphabet c" by (simp add: stdAlphabet_decodeMap)
    from Some have nn: "\<not> isNewline c" "c \<noteq> CHR ''=''"
      by (auto simp: decodeMap_def isNewline_def Let_def split: if_splits)
    show ?thesis
    proof (cases "length dbuf = 3")
      case True
      from "2.IH"(2)[OF Some True] have "decodeLoop [] src \<noteq> None \<longleftrightarrow> wellFormedFrom 0 ?t"
        by simp
      with Some True nn a show ?thesis
        by (auto simp: wellFormedFrom_def Let_def)
    next
      case False
      with "2.prems" have "length (dbuf @ [v]) \<le> 3" by simp
      from "2.IH"(3)[OF Some False this]
      have "decodeLoop (dbuf @ [v]) src \<noteq> None \<longleftrightarrow> wellFormedFrom (Suc (length dbuf)) ?t"
        by simp
      with Some False nn a show ?thesis
        by (auto simp: wellFormedFrom_def Let_def)
    qed
  next
    case None
    then have na: "\<not> stdAlphabet c" by (simp add: stdAlphabet_decodeMap)
    show ?thesis
    proof (cases "isNewline c")
      case True
      from "2.IH"(1)[OF None True "2.prems"] None True show ?thesis by simp
    next
      case nl: False
      show ?thesis
      proof (cases "c = CHR ''=''")
        case False
        with None nl na show ?thesis by (simp add: wellFormedFrom_def Let_def)
      next
        case True
        have w: "wellFormedFrom (length dbuf) (CHR ''='' # ?t)
          \<longleftrightarrow> (length dbuf = 3 \<and> ?t = []) \<or> (length dbuf = 2 \<and> ?t = ''='')"
          using "2.prems" by (auto simp: wellFormedFrom_def Let_def) presburger+
        consider "length dbuf < 2" | "length dbuf = 2" | "length dbuf = 3"
          using "2.prems" by linarith
        then show ?thesis
        proof cases
          case 1
          with None nl True w show ?thesis by simp
        next
          case 2
          with None nl True w two_pads[where src = src and out = "quantumBytes dbuf"] show ?thesis by simp
        next
          case 3
          with None nl True w show ?thesis by (auto simp: filter_empty_conv)
        qed
      qed
    qed
  qed
qed

lemma IsBase64_wellFormed:
  "IsBase64 s \<longleftrightarrow> length s mod 4 = 0 \<and> strictBase64 (filter (\<lambda>c. \<not> isNewline c) s)"
  using decodeLoop_wellFormed[of "[]" s]
  by (simp add: IsBase64_def DecodeString_def strictBase64_def)

text \<open>
  C1, as the code has it. \<open>s\<close> is a Base64 candidate if and only if its length is a
  multiple of 4 and \<open>s\<close> without its \<^verbatim>\<open>'\r'\<close> and \<^verbatim>\<open>'\n'\<close> characters, which Go's decoder
  skips, is well-formed: a multiple of 4 characters of the alphabet followed by no
  padding, one \<^verbatim>\<open>=\<close> or two (the bits left over in the last character are not checked).
  A string with no such character is a candidate exactly when it is well-formed. For
  every string that is not a candidate, \<open>Decode s = s\<close>.
\<close>

theorem candidate_characterisation:
  "(IsBase64 s \<longleftrightarrow> length s mod 4 = 0 \<and> strictBase64 (filter (\<lambda>c. \<not> isNewline c) s))
   \<and> (list_all (\<lambda>c. \<not> isNewline c) s \<longrightarrow> (IsBase64 s \<longleftrightarrow> strictBase64 s))
   \<and> (\<not> IsBase64 s \<longrightarrow> DecodeBase64Fields conv (JString s) = JString s)"
proof -
  have "filter (\<lambda>c. \<not> isNewline c) s = s" if "list_all (\<lambda>c. \<not> isNewline c) s"
    using that by (simp add: list_all_iff)
  moreover have "strictBase64 s \<Longrightarrow> length s mod 4 = 0"
    by (simp add: strictBase64_def wellFormedFrom_def Let_def)
  ultimately show ?thesis
    using IsBase64_wellFormed[of s] by (auto simp: decoder_eval)
qed

lemma badchars_length: "length ''Hello@World'' mod 4 \<noteq> 0"
  by simp

theorem candidate_characterisation_witness:
  "length ''Hello@World'' mod 4 \<noteq> 0
   \<and> \<not> IsBase64 ''Hello@World''
   \<and> DecodeBase64Fields asLiteral (JString ''Hello@World'') = JString ''Hello@World''"
proof -
  note t = candidate_characterisation [of "''Hello@World''" asLiteral]
  from t [THEN conjunct1] badchars_length have n: "\<not> IsBase64 ''Hello@World''" by blast
  from t [THEN conjunct2, THEN conjunct2, rule_format, OF n] n badchars_length
  show ?thesis by (intro conjI) assumption+
qed

text \<open>
  C1 as stated fails on a string of four line feeds: Go's decoder skips them and decodes
  the string to no bytes, so it is a Base64 candidate, and \<open>Decode\<close> replaces it by the
  empty string; none of its characters is in the alphabet.
\<close>

theorem newline_candidate_counterexample:
  "IsBase64 ''\<newline>\<newline>\<newline>\<newline>''
   \<and> \<not> strictBase64 ''\<newline>\<newline>\<newline>\<newline>''
   \<and> \<not> list_all stdAlphabet ''\<newline>\<newline>\<newline>\<newline>''
   \<and> DecodeBase64Fields asLiteral (JString ''\<newline>\<newline>\<newline>\<newline>'') = JString []"
proof -
  have d: "DecodeString ''\<newline>\<newline>\<newline>\<newline>'' = Some []"
    by (simp add: base64_eval)
  have c: "IsBase64 ''\<newline>\<newline>\<newline>\<newline>''" by (simp add: IsBase64_def d)
  have r: "DecodeBase64Fields asLiteral (JString ''\<newline>\<newline>\<newline>\<newline>'') = JString []"
    by (simp add: decoder_eval c d Valid_empty TrimSpace_empty Unmarshal_empty)
  have s: "\<not> strictBase64 ''\<newline>\<newline>\<newline>\<newline>''"
    by (simp add: strictBase64_def wellFormedFrom_def stdAlphabet_def)
  have a: "\<not> list_all stdAlphabet ''\<newline>\<newline>\<newline>\<newline>''"
    by (simp add: stdAlphabet_def)
  from c s a r show ?thesis by (intro conjI)
qed

section \<open>The tests of the repository\<close>

text \<open>
  The inputs of the tests of \<^verbatim>\<open>cmd/cli\<close>, as the values that \<^verbatim>\<open>json.Unmarshal\<close> gives
  for them, and what the decoder returns: the results that the tests expect.
\<close>

lemma decoded_plain_text:
  "length s mod 4 = 0 \<Longrightarrow> DecodeString s = Some d \<Longrightarrow> Valid d \<Longrightarrow> TrimSpace d = t
   \<Longrightarrow> Unmarshal conv t = None \<Longrightarrow> DecodeBase64String conv s = JString t"
  by (simp add: decoder_eval IsBase64_def)

lemma test_direct_parse:
  \<open>Unmarshal asLiteral ''{"message": "SGVsbG8gV29ybGQ=", "number": 42}''
   = Some (JObject [(''message'', JString ''SGVsbG8gV29ybGQ=''), (''number'', JNumber ''42'')])\<close>
  by (simp add: json_eval)

lemma cand_Hello: "DecodeBase64String conv ''SGVsbG8='' = JString ''Hello''"
proof (rule decoded_plain_text)
  show "DecodeString ''SGVsbG8='' = Some ''Hello''" by (simp add: base64_eval)
  show "Valid ''Hello''" by (simp add: utf8_eval)
  show "TrimSpace ''Hello'' = ''Hello''" by (simp add: trim_eval)
  show "Unmarshal conv ''Hello'' = None" by (simp add: json_eval)
qed simp

lemma cand_World: "DecodeBase64String conv ''V29ybGQ='' = JString ''World''"
proof (rule decoded_plain_text)
  show "DecodeString ''V29ybGQ='' = Some ''World''" by (simp add: base64_eval)
  show "Valid ''World''" by (simp add: utf8_eval)
  show "TrimSpace ''World'' = ''World''" by (simp add: trim_eval)
  show "Unmarshal conv ''World'' = None" by (simp add: json_eval)
qed simp

lemma cand_Test: "DecodeBase64String conv ''VGVzdA=='' = JString ''Test''"
proof (rule decoded_plain_text)
  show "DecodeString ''VGVzdA=='' = Some ''Test''" by (simp add: base64_eval)
  show "Valid ''Test''" by (simp add: utf8_eval)
  show "TrimSpace ''Test'' = ''Test''" by (simp add: trim_eval)
  show "Unmarshal conv ''Test'' = None" by (simp add: json_eval)
qed simp

lemma cand_Foo: "DecodeBase64String conv ''Rm9v'' = JString ''Foo''"
proof (rule decoded_plain_text)
  show "DecodeString ''Rm9v'' = Some ''Foo''" by (simp add: base64_eval)
  show "Valid ''Foo''" by (simp add: utf8_eval)
  show "TrimSpace ''Foo'' = ''Foo''" by (simp add: trim_eval)
  show "Unmarshal conv ''Foo'' = None" by (simp add: json_eval)
qed simp

lemma cand_bar: "DecodeBase64String conv ''YmFy'' = JString ''bar''"
proof (rule decoded_plain_text)
  show "DecodeString ''YmFy'' = Some ''bar''" by (simp add: base64_eval)
  show "Valid ''bar''" by (simp add: utf8_eval)
  show "TrimSpace ''bar'' = ''bar''" by (simp add: trim_eval)
  show "Unmarshal conv ''bar'' = None" by (simp add: json_eval)
qed simp

lemma cand_HelloWorld: "DecodeBase64String conv ''SGVsbG8gV29ybGQ='' = JString ''Hello World''"
proof (rule decoded_plain_text)
  show "DecodeString ''SGVsbG8gV29ybGQ='' = Some ''Hello World''" by (simp add: base64_eval)
  show "Valid ''Hello World''" by (simp add: utf8_eval)
  show "TrimSpace ''Hello World'' = ''Hello World''" by (simp add: trim_eval)
  show "Unmarshal conv ''Hello World'' = None" by (simp add: json_eval)
qed simp

lemma plain_strings:
  "DecodeBase64String conv ''world'' = JString ''world''"
  "DecodeBase64String conv ''not-base64'' = JString ''not-base64''"
  "DecodeBase64String conv ''abc'' = JString ''abc''"
  "DecodeBase64String conv ''Hello@World'' = JString ''Hello@World''"
  "DecodeBase64String conv ''plain text'' = JString ''plain text''"
  "DecodeBase64String conv ''value'' = JString ''value''"
  by (simp_all add: decoder_eval IsBase64_def)

lemma test_complex_nested:
  "DecodeBase64Fields conv
     (JObject
        [(''level1'', JObject
            [(''encoded'', JString ''SGVsbG8=''),
             (''plain'', JString ''world''),
             (''level2'', JObject
                [(''array'', JArray [JString ''VGVzdA=='', JNumber n, JBool True,
                                     JString ''not-base64'']),
                 (''nested_encoded'', JString ''V29ybGQ='')])]),
         (''root_array'', JArray [JString ''Rm9v'', JString ''YmFy'', JBool False, JNull])])
   = JObject
        [(''level1'', JObject
            [(''encoded'', JString ''Hello''),
             (''plain'', JString ''world''),
             (''level2'', JObject
                [(''array'', JArray [JString ''Test'', JNumber n, JBool True,
                                     JString ''not-base64'']),
                 (''nested_encoded'', JString ''World'')])]),
         (''root_array'', JArray [JString ''Foo'', JString ''bar'', JBool False, JNull])]"
  by (simp add: cand_Hello cand_World cand_Test cand_Foo cand_bar plain_strings)

lemma test_edge_cases:
  "DecodeBase64Fields conv
     (JObject
        [(''valid_base64'', JString ''SGVsbG8gV29ybGQ=''),
         (''not_base64_wrong_length'', JString ''abc''),
         (''not_base64_invalid_chars'', JString ''Hello@World''),
         (''empty_string'', JString []),
         (''number'', JNumber n),
         (''boolean'', JBool True),
         (''null_value'', JNull),
         (''array_with_mixed'',
            JArray [JString ''SGVsbG8='', JString ''plain text'', JNumber m, JString ''VGVzdA==''])])
   = JObject
        [(''valid_base64'', JString ''Hello World''),
         (''not_base64_wrong_length'', JString ''abc''),
         (''not_base64_invalid_chars'', JString ''Hello@World''),
         (''empty_string'', JString []),
         (''number'', JNumber n),
         (''boolean'', JBool True),
         (''null_value'', JNull),
         (''array_with_mixed'',
            JArray [JString ''Hello'', JString ''plain text'', JNumber m, JString ''Test''])]"
proof -
  have e: "DecodeBase64String conv [] = JString []"
    by (simp add: decoder_eval IsBase64_empty DecodeString_empty Valid_empty TrimSpace_empty
        Unmarshal_empty)
  show ?thesis
    by (simp add: cand_Hello cand_HelloWorld cand_Test plain_strings e)
qed

lemma cand_wrapped:
  "DecodeBase64String asLiteral ''eyJrZXkiOiJ2YWx1ZSJ9Cg==''
   = JObject [(''key'', JString ''value'')]"
proof -
  have c: "IsBase64 ''eyJrZXkiOiJ2YWx1ZSJ9Cg==''"
    by (simp add: IsBase64_def wrapped_DecodeString)
  show ?thesis
    by (simp add: decoder_eval c wrapped_DecodeString wrapped_Valid wrapped_TrimSpace
        wrapped_Unmarshal value_not_Base64)
qed

lemma test_another_JSON:
  \<open>map_option (DecodeBase64Fields asLiteral)
     (Unmarshal asLiteral ''{"message": "eyJrZXkiOiJ2YWx1ZSJ9Cg==", "number": 42}'')
   = Some (JObject [(''message'', JObject [(''key'', JString ''value'')]),
                    (''number'', JNumber ''42'')])\<close>
proof -
  have \<open>Unmarshal asLiteral ''{"message": "eyJrZXkiOiJ2YWx1ZSJ9Cg==", "number": 42}''
    = Some (JObject [(''message'', JString ''eyJrZXkiOiJ2YWx1ZSJ9Cg==''),
                     (''number'', JNumber ''42'')])\<close>
    by (simp add: json_eval)
  then show ?thesis by (simp add: cand_wrapped)
qed

lemma test_binary:
  "DecodeBase64Fields conv
     (JObject [(''binaryField'', JString ''//4AAYCB''), (''textField'', JString ''SGVsbG8='')])
   = JObject [(''binaryField'', JString ''//4AAYCB''), (''textField'', JString ''Hello'')]"
proof -
  have c: "IsBase64 ''//4AAYCB''" by (simp add: IsBase64_def binary_DecodeString)
  have "DecodeBase64String conv ''//4AAYCB'' = JString ''//4AAYCB''"
    by (simp add: decoder_eval c binary_DecodeString binary_not_Valid)
  then show ?thesis by (simp add: cand_Hello)
qed

lemma binary_EncodeToString:
  "EncodeToString [CHR 0xFF, CHR 0xFE, CHR 0x00, CHR 0x01, CHR 0x80, CHR 0x81] = ''//4AAYCB''"
  by (simp add: encodeStd_def char_of_eq_iff take_bit_eq_mod)

text \<open>
  The test of the package \<^verbatim>\<open>decoder\<close> expects the member \<^verbatim>\<open>message\<close> of the decoded
  document to stay \<^verbatim>\<open>distance\<close>. The eight characters of that word are all of the
  alphabet, so it is a Base64 candidate; its six bytes are valid UTF-8 and not JSON, and
  the decoder returns them in its place.
\<close>

lemma distance_DecodeString:
  "DecodeString ''distance'' = Some [CHR ''v'', CHR ''+'', CHR ''-'', CHR ''j'', CHR ''w'', CHR 0x1E]"
  by (simp add: base64_eval)

lemma distance_decoded:
  "DecodeBase64String conv ''distance''
   = JString [CHR ''v'', CHR ''+'', CHR ''-'', CHR ''j'', CHR ''w'', CHR 0x1E]"
proof (rule decoded_plain_text)
  show "DecodeString ''distance''
      = Some [CHR ''v'', CHR ''+'', CHR ''-'', CHR ''j'', CHR ''w'', CHR 0x1E]"
    by (rule distance_DecodeString)
  show "Valid [CHR ''v'', CHR ''+'', CHR ''-'', CHR ''j'', CHR ''w'', CHR 0x1E]"
    by (simp add: utf8_eval)
  show "TrimSpace [CHR ''v'', CHR ''+'', CHR ''-'', CHR ''j'', CHR ''w'', CHR 0x1E]
      = [CHR ''v'', CHR ''+'', CHR ''-'', CHR ''j'', CHR ''w'', CHR 0x1E]"
    by (simp add: trim_eval)
  show "Unmarshal conv [CHR ''v'', CHR ''+'', CHR ''-'', CHR ''j'', CHR ''w'', CHR 0x1E] = None"
    by (simp add: json_eval)
qed simp

lemma test_decoder_package:
  \<open>DecodeBase64Fields asLiteral (JObject [(''data'', JString ''eyJtZXNzYWdlIjoiZGlzdGFuY2UifQo='')])
   = JObject [(''data'', JObject [(''message'',
        JString [CHR ''v'', CHR ''+'', CHR ''-'', CHR ''j'', CHR ''w'', CHR 0x1E])])]\<close>
proof -
  have d: \<open>DecodeString ''eyJtZXNzYWdlIjoiZGlzdGFuY2UifQo=''
      = Some ''{"message":"distance"}\<newline>''\<close>
    by (simp add: base64_eval)
  have c: "IsBase64 ''eyJtZXNzYWdlIjoiZGlzdGFuY2UifQo=''" by (simp add: IsBase64_def d)
  have v: \<open>Valid ''{"message":"distance"}\<newline>''\<close> by (simp add: utf8_eval)
  have t: \<open>TrimSpace ''{"message":"distance"}\<newline>'' = ''{"message":"distance"}''\<close>
    by (simp add: trim_eval)
  have u: \<open>Unmarshal asLiteral ''{"message":"distance"}''
      = Some (JObject [(''message'', JString ''distance'')])\<close>
    by (simp add: json_eval)
  have \<open>DecodeBase64String asLiteral ''eyJtZXNzYWdlIjoiZGlzdGFuY2UifQo=''
      = DecodeBase64Fields asLiteral (JObject [(''message'', JString ''distance'')])\<close>
    by (simp add: decoder_eval c d v t u)
  then show ?thesis by (simp add: distance_decoded)
qed

end
